theory Spec2Isabelle
  imports Main "HOL-Library.Multiset"
begin

section \<open>Characters and C strings\<close>

text \<open>
  A C string is modelled by the list of its characters before the terminating NUL, so
  \<open>strlen\<close> is \<open>length\<close> and \<open>strcmp(a, b) == 0\<close> is \<open>a = b\<close>.  The character
  classes are those of \<open>ctype.h\<close> in the C locale.  C's \<open>int\<close> is modelled by \<open>int\<close>:
  signed overflow is undefined behaviour in C, and the model describes the executions
  in which every count and rank, and every sum and difference of them that the code
  computes, stays representable (as it does for the counts of a crawled corpus).
\<close>

definition isupper :: "char \<Rightarrow> bool" where
  "isupper c = (65 \<le> (of_char c :: nat) \<and> (of_char c :: nat) \<le> 90)"

definition islower :: "char \<Rightarrow> bool" where
  "islower c = (97 \<le> (of_char c :: nat) \<and> (of_char c :: nat) \<le> 122)"

definition isalpha :: "char \<Rightarrow> bool" where
  "isalpha c = (isupper c \<or> islower c)"

definition isdigit :: "char \<Rightarrow> bool" where
  "isdigit c = (48 \<le> (of_char c :: nat) \<and> (of_char c :: nat) \<le> 57)"

definition isspace :: "char \<Rightarrow> bool" where
  "isspace c = ((of_char c :: nat) = 32 \<or> (9 \<le> (of_char c :: nat) \<and> (of_char c :: nat) \<le> 13))"

definition tolower :: "char \<Rightarrow> char" where
  "tolower c = (if isupper c then char_of ((of_char c :: nat) + 32) else c)"

section \<open>Data model (index.h, query.c)\<close>

record doc_entry =
  docID :: int
  count :: int

record word_entry =
  word :: string
  docs :: "doc_entry list"

record query_result =
  qdocID :: int
  rank :: int

text \<open>
  \<open>qdocID\<close> is the field \<open>docID\<close> of the C struct \<open>query_result_t\<close>; the name is
  changed only to keep it apart from \<open>docID\<close> of \<open>doc_entry_t\<close>.
\<close>

section \<open>Collaborating containers (queue.h, hash.h)\<close>

text \<open>
  Modelled from the spec: \<open>queue.c\<close> and \<open>hash.c\<close> are not among the sources; the
  spec describes them as a FIFO queue (enqueue, dequeue, search with a predicate,
  apply to all) and an associative container (insert and lookup by key, apply to all).
  A queue is the list of its elements, front first.  A hash table is the list of its
  buckets, each a queue; the hash function is not known and is a parameter \<open>hf\<close> of
  every operation that uses a key.  A search returns a pointer into the container, and
  the code writes through that pointer; \<open>qupdate\<close> and \<open>hupdate\<close> are those writes:
  they replace the element the search returns, and nothing else.
\<close>

definition qopen :: "'a list" where
  "qopen = []"

definition qput :: "'a list \<Rightarrow> 'a \<Rightarrow> 'a list" where
  "qput q e = q @ [e]"

definition qget :: "'a list \<Rightarrow> ('a \<times> 'a list) option" where
  "qget q = (case q of [] \<Rightarrow> None | e # rest \<Rightarrow> Some (e, rest))"

definition qsearch :: "'a list \<Rightarrow> ('a \<Rightarrow> 'k \<Rightarrow> bool) \<Rightarrow> 'k \<Rightarrow> 'a option" where
  "qsearch q searchfn key = find (\<lambda>e. searchfn e key) q"

fun qupdate :: "'a list \<Rightarrow> ('a \<Rightarrow> 'k \<Rightarrow> bool) \<Rightarrow> 'k \<Rightarrow> ('a \<Rightarrow> 'a) \<Rightarrow> 'a list" where
  "qupdate [] searchfn key f = []"
| "qupdate (e # rest) searchfn key f =
     (if searchfn e key then f e # rest else e # qupdate rest searchfn key f)"

type_synonym hashtable = "word_entry list list"

definition hopen :: "nat \<Rightarrow> hashtable" where
  "hopen hsize = replicate hsize qopen"

definition hslot :: "(string \<Rightarrow> nat) \<Rightarrow> hashtable \<Rightarrow> string \<Rightarrow> nat" where
  "hslot hf htp key = hf key mod length htp"

definition hput :: "(string \<Rightarrow> nat) \<Rightarrow> hashtable \<Rightarrow> word_entry \<Rightarrow> string \<Rightarrow> hashtable" where
  "hput hf htp ep key = htp[hslot hf htp key := qput (htp ! hslot hf htp key) ep]"

definition hsearch ::
  "(string \<Rightarrow> nat) \<Rightarrow> hashtable \<Rightarrow> (word_entry \<Rightarrow> string \<Rightarrow> bool) \<Rightarrow> string \<Rightarrow> word_entry option" where
  "hsearch hf htp searchfn key = qsearch (htp ! hslot hf htp key) searchfn key"

definition hupdate ::
  "(string \<Rightarrow> nat) \<Rightarrow> hashtable \<Rightarrow> (word_entry \<Rightarrow> string \<Rightarrow> bool) \<Rightarrow> string \<Rightarrow>
   (word_entry \<Rightarrow> word_entry) \<Rightarrow> hashtable" where
  "hupdate hf htp searchfn key f =
     htp[hslot hf htp key := qupdate (htp ! hslot hf htp key) searchfn key f]"

definition happly :: "hashtable \<Rightarrow> word_entry list" where
  \<comment> \<open>the entries in the order in which \<open>happly\<close> visits them\<close>
  "happly htp = concat htp"

definition search_word :: "word_entry \<Rightarrow> string \<Rightarrow> bool" where
  "search_word entry keyp = (word entry = keyp)"

definition search_doc :: "doc_entry \<Rightarrow> int \<Rightarrow> bool" where
  "search_doc entry keyp = (docID entry = keyp)"

definition search_docid_queue :: "query_result \<Rightarrow> int \<Rightarrow> bool" where
  "search_docid_queue entry keyp = (qdocID entry = keyp)"

section \<open>Word normalizer (indexer.c)\<close>

text \<open>
  \<open>NormalizeWord\<close> returns NULL for a word shorter than three characters; otherwise it
  walks the word, returns NULL at the first non-alphabetic character and lowercases
  every character before it in place.  The loop is \<open>NormalizeWord_loop\<close>, with the loop
  index \<open>i\<close> and the buffer as it is after the writes made so far.
\<close>

function NormalizeWord_loop :: "string \<Rightarrow> nat \<Rightarrow> string option" where
  "NormalizeWord_loop wd i =
     (if i < length wd then
        (if \<not> isalpha (wd ! i) then None
         else NormalizeWord_loop (wd[i := tolower (wd ! i)]) (i + 1))
      else Some wd)"
  by pat_completeness auto
termination
  by (relation "measure (\<lambda>(wd, i). length wd - i)") auto

definition NormalizeWord :: "string \<Rightarrow> string option" where
  "NormalizeWord wd = (if length wd < 3 then None else NormalizeWord_loop wd 0)"

declare NormalizeWord_loop.simps [simp del]

lemma NormalizeWord_loop_char:
  "i \<le> length wd \<Longrightarrow>
   NormalizeWord_loop wd i =
     (if \<forall>c \<in> set (drop i wd). isalpha c
      then Some (take i wd @ map tolower (drop i wd)) else None)"
proof (induction wd i rule: NormalizeWord_loop.induct)
  case (1 wd i)
  show ?case
  proof (cases "i < length wd")
    case False
    then have "drop i wd = []"
      by simp
    with False show ?thesis
      by (subst NormalizeWord_loop.simps) simp
  next
    case True
    then have d: "drop i wd = wd ! i # drop (Suc i) wd"
      by (simp add: Cons_nth_drop_Suc)
    show ?thesis
    proof (cases "isalpha (wd ! i)")
      case False
      with True d show ?thesis
        by (subst NormalizeWord_loop.simps) simp
    next
      case a: True
      let ?w = "wd[i := tolower (wd ! i)]"
      have ih: "NormalizeWord_loop ?w (i + 1) =
          (if \<forall>c \<in> set (drop (i + 1) ?w). isalpha c
           then Some (take (i + 1) ?w @ map tolower (drop (i + 1) ?w)) else None)"
        using "1.IH" [OF True] a True by simp
      have t: "take (i + 1) ?w = take i wd @ [tolower (wd ! i)]"
        using True by (simp add: take_Suc_conv_app_nth)
      have dd: "drop (i + 1) ?w = drop (Suc i) wd"
        by simp
      show ?thesis
        using True a d ih t dd
        by (subst NormalizeWord_loop.simps) simp
    qed
  qed
qed

text \<open>
  C4.  For every string, \<open>NormalizeWord\<close> returns nothing exactly when the string is
  shorter than three characters or holds a non-alphabetic character; otherwise it
  returns the string with every character lowercased.
\<close>

theorem NormalizeWord_spec:
  "(NormalizeWord w = None \<longleftrightarrow> (length w < 3 \<or> (\<exists>c \<in> set w. \<not> isalpha c))) \<and>
   (\<not> (length w < 3 \<or> (\<exists>c \<in> set w. \<not> isalpha c)) \<longrightarrow>
      NormalizeWord w = Some (map tolower w))"
  by (simp add: NormalizeWord_def NormalizeWord_loop_char)

theorem NormalizeWord_spec_witness:
  "NormalizeWord ''Cat'' = Some ''cat'' \<and> NormalizeWord ''c4t'' = None \<and>
   NormalizeWord ''Ox'' = None"
proof -
  have a: "\<not> (length ''Cat'' < 3 \<or> (\<exists>c \<in> set ''Cat''. \<not> isalpha c))"
    by code_simp
  have b: "length ''c4t'' < 3 \<or> (\<exists>c \<in> set ''c4t''. \<not> isalpha c)"
    by code_simp
  have c: "map tolower ''Cat'' = ''cat''"
    by code_simp
  have d: "length ''Ox'' < 3 \<or> (\<exists>c \<in> set ''Ox''. \<not> isalpha c)"
    by simp
  from NormalizeWord_spec [of "''Cat''"] a c have "NormalizeWord ''Cat'' = Some ''cat''"
    by metis
  moreover from NormalizeWord_spec [of "''c4t''"] b have "NormalizeWord ''c4t'' = None"
    by blast
  moreover from NormalizeWord_spec [of "''Ox''"] d have "NormalizeWord ''Ox'' = None"
    by blast
  ultimately show ?thesis
    by blast
qed

section \<open>Query parser and validator (query.c)\<close>

definition MAX_WORDS :: nat where
  "MAX_WORDS = 100"

definition query_delims :: string where
  "query_delims = [CHR '' '', CHR 0x09, CHR 0x0A]"

text \<open>
  \<open>strtok\<close> on the text that is left: it skips the delimiters in front, fails at the
  end of the string, and otherwise returns the token up to the next delimiter together
  with the text after that delimiter, which is where the next call resumes.
\<close>

definition strtok :: "string \<Rightarrow> string \<Rightarrow> (string \<times> string) option" where
  "strtok delims s =
     (let s1 = dropWhile (\<lambda>c. c \<in> set delims) s in
      if s1 = [] then None
      else Some (takeWhile (\<lambda>c. c \<notin> set delims) s1,
                 drop 1 (dropWhile (\<lambda>c. c \<notin> set delims) s1)))"

lemma strtok_shorter: "strtok delims s = Some (tok, rest) \<Longrightarrow> length rest < length s"
proof -
  assume a: "strtok delims s = Some (tok, rest)"
  let ?s1 = "dropWhile (\<lambda>c. c \<in> set delims) s"
  from a have ne: "?s1 \<noteq> []" and r: "rest = drop 1 (dropWhile (\<lambda>c. c \<notin> set delims) ?s1)"
    by (auto simp: strtok_def Let_def split: if_splits)
  from ne obtain c cs where s1: "?s1 = c # cs"
    by (cases ?s1) auto
  have "\<not> c \<in> set delims"
    using hd_dropWhile [OF ne] s1 by simp
  then have "dropWhile (\<lambda>c. c \<notin> set delims) ?s1 = dropWhile (\<lambda>c. c \<notin> set delims) cs"
    by (simp add: s1)
  then have "length rest \<le> length cs"
    using r length_dropWhile_le [of "\<lambda>c. c \<notin> set delims" cs] by simp
  moreover have "length ?s1 \<le> length s"
    by (rule length_dropWhile_le)
  ultimately show ?thesis
    by (simp add: s1)
qed

text \<open>
  The tokenizing loop of \<open>validate_and_parse_query\<close>: \<open>token\<close> is the result of the last
  \<open>strtok\<close> call, \<open>tokens\<close> the array filled so far (\<open>count\<close> is its length).  \<open>None\<close>
  is the return value -1.
\<close>

function read_tokens :: "(string \<times> string) option \<Rightarrow> string list \<Rightarrow> string list option" where
  "read_tokens None tokens = Some tokens"
| "read_tokens (Some (token, rest)) tokens =
     (if length tokens \<ge> MAX_WORDS then None
      else read_tokens (strtok query_delims rest) (tokens @ [token]))"
  by pat_completeness auto
termination
  by (relation "measure (\<lambda>(t, ts). case t of None \<Rightarrow> 0 | Some (tok, rest) \<Rightarrow> Suc (length rest))")
    (auto split: option.splits dest: strtok_shorter)

text \<open>
  \<open>validate_word\<close> lowercases the word in place while it checks it; \<open>None\<close> is the
  return value false, \<open>Some w\<close> is true with the buffer as the loop left it.
\<close>

function validate_word_loop :: "string \<Rightarrow> nat \<Rightarrow> string option" where
  "validate_word_loop wd i =
     (if i < length wd then
        (if \<not> isalpha (wd ! i) then None
         else validate_word_loop (wd[i := tolower (wd ! i)]) (i + 1))
      else Some wd)"
  by pat_completeness auto
termination
  by (relation "measure (\<lambda>(wd, i). length wd - i)") auto

definition validate_word :: "string \<Rightarrow> string option" where
  "validate_word wd = validate_word_loop wd 0"

definition is_operator :: "string \<Rightarrow> bool" where
  "is_operator t = (t = ''and'' \<or> t = ''or'')"

text \<open>
  The validation loop over \<open>tokens[0..count-1]\<close>, with the words already visited
  lowercased in the array.
\<close>

function validate_loop :: "string list \<Rightarrow> nat \<Rightarrow> bool \<Rightarrow> string list option" where
  "validate_loop tokens i last_was_operator =
     (if i < length tokens then
        (if is_operator (tokens ! i) then
           (if last_was_operator then None else validate_loop tokens (i + 1) True)
         else
           (case validate_word (tokens ! i) of
              None \<Rightarrow> None
            | Some w \<Rightarrow> validate_loop (tokens[i := w]) (i + 1) False))
      else Some tokens)"
  by pat_completeness auto
termination
  by (relation "measure (\<lambda>(tokens, i, l). length tokens - i)") auto

text \<open>
  \<open>check_syntax\<close> is \<open>validate_and_parse_query\<close> from the line \<open>if (count == 0)\<close> on.
\<close>

definition check_syntax :: "string list \<Rightarrow> string list option" where
  "check_syntax tokens =
     (if length tokens = 0 then Some []
      else if is_operator (tokens ! 0) then None
      else if is_operator (tokens ! (length tokens - 1)) then None
      else validate_loop tokens 0 False)"

definition validate_and_parse_query :: "string \<Rightarrow> string list option" where
  "validate_and_parse_query line =
     (case read_tokens (strtok query_delims line) [] of
        None \<Rightarrow> None
      | Some tokens \<Rightarrow> check_syntax tokens)"

declare validate_word_loop.simps [simp del] validate_loop.simps [simp del]

text \<open>All the tokens of a line, as \<open>strtok\<close> splits it, without the bound of the array.\<close>

function all_tokens :: "string \<Rightarrow> string list" where
  "all_tokens s =
     (case strtok query_delims s of None \<Rightarrow> [] | Some (token, rest) \<Rightarrow> token # all_tokens rest)"
  by pat_completeness auto
termination
  by (relation "measure length") (auto dest: strtok_shorter)

declare all_tokens.simps [simp del]

lemma read_tokens_all:
  "length acc \<le> MAX_WORDS \<Longrightarrow>
   read_tokens (strtok query_delims s) acc =
     (if length acc + length (all_tokens s) > MAX_WORDS then None
      else Some (acc @ all_tokens s))"
proof (induction s arbitrary: acc rule: all_tokens.induct)
  case (1 s)
  show ?case
  proof (cases "strtok query_delims s")
    case None
    then show ?thesis
      using "1.prems" by (simp add: all_tokens.simps [of s])
  next
    case (Some p)
    obtain token rest where p: "p = (token, rest)"
      by (cases p)
    have at: "all_tokens s = token # all_tokens rest"
      using Some p by (simp add: all_tokens.simps [of s])
    show ?thesis
    proof (cases "length acc \<ge> MAX_WORDS")
      case True
      then show ?thesis
        using Some p at by simp
    next
      case False
      then have "length (acc @ [token]) \<le> MAX_WORDS"
        by simp
      from "1.IH" [OF Some p [symmetric] this] False show ?thesis
        using Some p at by simp
    qed
  qed
qed

text \<open>
  C10.  A line that \<open>strtok\<close> splits into more than 100 tokens is rejected (the return
  value -1, as for a syntax error), whatever the tokens are.  A line of at most 100
  tokens passes the bound: its result is that of the syntax checks alone.
\<close>

theorem query_token_limit:
  "(length (all_tokens line) > 100 \<longrightarrow> validate_and_parse_query line = None) \<and>
   (length (all_tokens line) \<le> 100 \<longrightarrow>
      validate_and_parse_query line = check_syntax (all_tokens line))"
  using read_tokens_all [of "[]" line]
  by (simp add: validate_and_parse_query_def MAX_WORDS_def)

theorem query_token_limit_witness:
  "validate_and_parse_query (concat (replicate 101 ''a '')) = None \<and>
   validate_and_parse_query (concat (replicate 100 ''a '')) = Some (replicate 100 ''a'')"
proof -
  have a: "length (all_tokens (concat (replicate 101 ''a ''))) > 100"
    by code_simp
  have b: "length (all_tokens (concat (replicate 100 ''a ''))) \<le> 100"
    by code_simp
  have c: "check_syntax (all_tokens (concat (replicate 100 ''a ''))) = Some (replicate 100 ''a'')"
    by code_simp
  from query_token_limit [of "concat (replicate 101 ''a '')"] a
  have "validate_and_parse_query (concat (replicate 101 ''a '')) = None"
    by blast
  moreover from query_token_limit [of "concat (replicate 100 ''a '')"] b c
  have "validate_and_parse_query (concat (replicate 100 ''a '')) = Some (replicate 100 ''a'')"
    by metis
  ultimately show ?thesis
    by blast
qed

text \<open>
  C6.  The spec has a line rejected when its first or last token is \<open>and\<close> or \<open>or\<close> in
  any letter case.  The code compares the tokens with \<open>strcmp\<close> before
  \<open>validate_word\<close> lowercases them: a leading \<open>AND\<close> or a trailing \<open>OR\<close> passes the
  operator checks and is then lowercased into the operator, so the line is accepted and
  the tokens returned begin or end with an operator; the same line in lower case is
  rejected.
\<close>

theorem uppercase_operator_accepted:
  "validate_and_parse_query (''AND dog'' @ [CHR 0x0A]) = Some [''and'', ''dog''] \<and>
   validate_and_parse_query (''cat OR'' @ [CHR 0x0A]) = Some [''cat'', ''or''] \<and>
   validate_and_parse_query (''and dog'' @ [CHR 0x0A]) = None"
  by code_simp

section \<open>Boolean retrieval engine (query.c)\<close>

text \<open>
  \<open>qapply\<close> calls a helper on every element, front to back.  The helpers of
  \<open>query.c\<close> work on globals (\<open>g_results_queue\<close>, \<open>g_count\<close>); the global a helper
  uses is threaded through as its state.
\<close>

definition qapply :: "'a list \<Rightarrow> ('a \<Rightarrow> 's \<Rightarrow> 's) \<Rightarrow> 's \<Rightarrow> 's" where
  "qapply q fn g = foldl (\<lambda>st e. fn e st) g q"

definition init_results_helper :: "doc_entry \<Rightarrow> query_result list \<Rightarrow> query_result list" where
  "init_results_helper d_entry g_results_queue =
     qput g_results_queue \<lparr>qdocID = docID d_entry, rank = count d_entry\<rparr>"

definition count_helper :: "'a \<Rightarrow> nat \<Rightarrow> nat" where
  "count_helper elementp g_count = g_count + 1"

text \<open>
  The first loop of \<open>compute_and_intersection\<close>: the index and the entry of the first
  token of \<open>tokens[i..end]\<close> that is not \<open>and\<close> and has at least three characters;
  \<open>None\<close> (the function returns NULL) when there is no such token or the index does
  not hold it.
\<close>

function first_word_loop ::
  "(string \<Rightarrow> nat) \<Rightarrow> hashtable \<Rightarrow> string list \<Rightarrow> int \<Rightarrow> int \<Rightarrow> (int \<times> word_entry) option" where
  "first_word_loop hf index tokens i endi =
     (if i \<le> endi then
        (if tokens ! nat i \<noteq> ''and'' \<and> length (tokens ! nat i) \<ge> 3 then
           (case hsearch hf index search_word (tokens ! nat i) of
              Some first_word \<Rightarrow> Some (i, first_word)
            | None \<Rightarrow> None)
         else first_word_loop hf index tokens (i + 1) endi)
      else None)"
  by pat_completeness auto
termination
  by (relation "measure (\<lambda>(hf, index, tokens, i, endi). nat (endi + 1 - i))") auto

text \<open>
  The loop over \<open>j\<close>: each of the \<open>num_to_check\<close> results is taken from the front of
  the queue and, when the next word's doc list holds its document, put back at the end
  with the smaller of the two counts as its rank.  The queue holds at least
  \<open>num_to_check - j\<close> results, so \<open>qget\<close> does not fail there.
\<close>

function intersect_loop ::
  "doc_entry list \<Rightarrow> nat \<Rightarrow> nat \<Rightarrow> query_result list \<Rightarrow> query_result list" where
  "intersect_loop next_docs j num_to_check results_queue =
     (if j < num_to_check then
        (case qget results_queue of
           None \<Rightarrow> results_queue
         | Some (qr, rest) \<Rightarrow>
             (case qsearch next_docs search_doc (qdocID qr) of
                Some found \<Rightarrow>
                  intersect_loop next_docs (j + 1) num_to_check
                    (qput rest (if count found < rank qr then qr\<lparr>rank := count found\<rparr> else qr))
              | None \<Rightarrow> intersect_loop next_docs (j + 1) num_to_check rest))
      else results_queue)"
  by pat_completeness auto
termination
  by (relation "measure (\<lambda>(next_docs, j, num_to_check, results_queue). num_to_check - j)") auto

text \<open>The second loop, over the tokens after the first word; \<open>None\<close> is the NULL return.\<close>

function next_words_loop ::
  "(string \<Rightarrow> nat) \<Rightarrow> hashtable \<Rightarrow> string list \<Rightarrow> int \<Rightarrow> int \<Rightarrow> query_result list \<Rightarrow>
   query_result list option" where
  "next_words_loop hf index tokens i endi results_queue =
     (if i \<le> endi then
        (if tokens ! nat i = ''and'' \<or> length (tokens ! nat i) < 3
         then next_words_loop hf index tokens (i + 1) endi results_queue
         else
           (case hsearch hf index search_word (tokens ! nat i) of
              None \<Rightarrow> None
            | Some next_word \<Rightarrow>
                next_words_loop hf index tokens (i + 1) endi
                  (intersect_loop (docs next_word) 0
                     (qapply results_queue count_helper 0) results_queue)))
      else Some results_queue)"
  by pat_completeness auto
termination
  by (relation "measure (\<lambda>(hf, index, tokens, i, endi, q). nat (endi + 1 - i))") auto

definition compute_and_intersection ::
  "(string \<Rightarrow> nat) \<Rightarrow> hashtable \<Rightarrow> string list \<Rightarrow> int \<Rightarrow> int \<Rightarrow> query_result list option" where
  "compute_and_intersection hf index tokens start endi =
     (case first_word_loop hf index tokens start endi of
        None \<Rightarrow> None
      | Some (first_word_idx, first_word) \<Rightarrow>
          next_words_loop hf index tokens (first_word_idx + 1) endi
            (qapply (docs first_word) init_results_helper qopen))"

text \<open>
  \<open>merge_or_results\<close> takes the results of one AND-group from the front of their queue
  one by one; a result whose document is already in the final queue adds its rank to
  the rank of that entry, any other result is appended.
\<close>

fun merge_or_results :: "query_result list \<Rightarrow> query_result list \<Rightarrow> query_result list" where
  "merge_or_results final_results [] = final_results"
| "merge_or_results final_results (qr # and_results) =
     (case qsearch final_results search_docid_queue (qdocID qr) of
        None \<Rightarrow> merge_or_results (qput final_results qr) and_results
      | Some master_qr \<Rightarrow>
          merge_or_results
            (qupdate final_results search_docid_queue (qdocID qr)
               (\<lambda>m. m\<lparr>rank := rank m + rank qr\<rparr>))
            and_results)"

text \<open>
  The loop of \<open>process_query\<close> over \<open>i = 0..num_tokens\<close>; it returns the final queue
  that \<open>process_query\<close> hands to \<open>print_results\<close>.
\<close>

function or_loop ::
  "(string \<Rightarrow> nat) \<Rightarrow> hashtable \<Rightarrow> string list \<Rightarrow> int \<Rightarrow> int \<Rightarrow> query_result list \<Rightarrow>
   query_result list" where
  "or_loop hf index tokens i and_start_index final_results =
     (if i \<le> int (length tokens) then
        (if i = int (length tokens) \<or> tokens ! nat i = ''or'' then
           or_loop hf index tokens (i + 1) (i + 1)
             (case compute_and_intersection hf index tokens and_start_index (i - 1) of
                None \<Rightarrow> final_results
              | Some and_results \<Rightarrow> merge_or_results final_results and_results)
         else or_loop hf index tokens (i + 1) and_start_index final_results)
      else final_results)"
  by pat_completeness auto
termination
  by (relation "measure (\<lambda>(hf, index, tokens, i, s, f). nat (int (length tokens) + 1 - i))") auto

definition query_results :: "(string \<Rightarrow> nat) \<Rightarrow> hashtable \<Rightarrow> string list \<Rightarrow> query_result list" where
  "query_results hf index tokens = or_loop hf index tokens 0 0 qopen"

declare first_word_loop.simps [simp del] intersect_loop.simps [simp del]
  next_words_loop.simps [simp del] or_loop.simps [simp del]

subsection \<open>The retrieval loops as functions of the group's content words\<close>

text \<open>
  \<open>slice tokens start end\<close> is the run \<open>tokens[start..end]\<close>; the content words of a
  group are its tokens other than \<open>and\<close> with at least three characters.
  \<open>intersect_docs\<close>, \<open>and_words\<close> and \<open>and_group\<close> say in list terms what the loops of
  \<open>compute_and_intersection\<close> are proved to compute; \<open>split_or\<close> cuts the token list
  at every \<open>or\<close>.
\<close>

definition is_content :: "string \<Rightarrow> bool" where
  "is_content t = (t \<noteq> ''and'' \<and> length t \<ge> 3)"

definition slice :: "string list \<Rightarrow> int \<Rightarrow> int \<Rightarrow> string list" where
  "slice tokens start endi = map (\<lambda>i. tokens ! nat i) [start..endi]"

definition content_words :: "string list \<Rightarrow> string list" where
  "content_words ts = filter is_content ts"

definition intersect_docs :: "doc_entry list \<Rightarrow> query_result list \<Rightarrow> query_result list" where
  "intersect_docs next_docs rs =
     List.map_filter (\<lambda>qr. case find (\<lambda>d. docID d = qdocID qr) next_docs of
         None \<Rightarrow> None
       | Some found \<Rightarrow> Some (qr\<lparr>rank := min (rank qr) (count found)\<rparr>)) rs"

fun and_words :: "(string \<Rightarrow> nat) \<Rightarrow> hashtable \<Rightarrow> string list \<Rightarrow> query_result list \<Rightarrow> query_result list option" where
  "and_words hf index [] rs = Some rs"
| "and_words hf index (w # ws) rs =
     (case hsearch hf index search_word w of
        None \<Rightarrow> None
      | Some e \<Rightarrow> and_words hf index ws (intersect_docs (docs e) rs))"

definition and_group :: "(string \<Rightarrow> nat) \<Rightarrow> hashtable \<Rightarrow> string list \<Rightarrow> query_result list option" where
  "and_group hf index ws =
     (case ws of
        [] \<Rightarrow> None
      | w # rest \<Rightarrow>
          (case hsearch hf index search_word w of
             None \<Rightarrow> None
           | Some e \<Rightarrow> and_words hf index rest
               (map (\<lambda>d. \<lparr>qdocID = docID d, rank = count d\<rparr>) (docs e))))"

lemma qapply_count: "qapply q count_helper n = n + length q"
  by (induction q arbitrary: n) (simp_all add: qapply_def count_helper_def)

lemma qapply_init: "qapply ds init_results_helper q = q @ map (\<lambda>d. \<lparr>qdocID = docID d, rank = count d\<rparr>) ds"
  by (induction ds arbitrary: q) (simp_all add: qapply_def init_results_helper_def qput_def)

lemma intersect_loop_gen:
  "length rem = n - j \<Longrightarrow> j \<le> n \<Longrightarrow>
   intersect_loop ds j n (rem @ acc) = acc @ intersect_docs ds rem"
proof (induction rem arbitrary: j acc)
  case Nil
  then have "\<not> j < n" by simp
  then show ?case
    by (subst intersect_loop.simps) (simp add: intersect_docs_def List.map_filter_simps)
next
  case (Cons qr rest)
  then have lt: "j < n" and l: "length rest = n - (j + 1)" and le: "j + 1 \<le> n"
    by auto
  have g: "qget ((qr # rest) @ acc) = Some (qr, rest @ acc)"
    by (simp add: qget_def)
  show ?case
  proof (cases "find (\<lambda>d. docID d = qdocID qr) ds")
    case None
    then have "qsearch ds search_doc (qdocID qr) = None"
      by (simp add: qsearch_def search_doc_def)
    then show ?thesis
      using lt g None Cons.IH [OF l le, of acc]
      by (subst intersect_loop.simps) (simp add: intersect_docs_def List.map_filter_simps)
  next
    case (Some found)
    let ?qr = "if count found < rank qr then qr\<lparr>rank := count found\<rparr> else qr"
    have s: "qsearch ds search_doc (qdocID qr) = Some found"
      using Some by (simp add: qsearch_def search_doc_def)
    have q: "qput (rest @ acc) ?qr = rest @ (acc @ [?qr])"
      by (simp add: qput_def)
    have m: "?qr = qr\<lparr>rank := min (rank qr) (count found)\<rparr>"
      by (simp add: min_def)
    have "intersect_loop ds j n ((qr # rest) @ acc) =
        intersect_loop ds (j + 1) n (rest @ (acc @ [?qr]))"
      using lt g s q by (subst intersect_loop.simps) simp
    also have "\<dots> = (acc @ [?qr]) @ intersect_docs ds rest"
      by (rule Cons.IH [OF l le])
    also have "\<dots> = acc @ intersect_docs ds (qr # rest)"
      using Some m by (simp add: intersect_docs_def List.map_filter_simps)
    finally show ?thesis .
  qed
qed

lemma intersect_loop_docs:
  "intersect_loop ds 0 (qapply q count_helper 0) q = intersect_docs ds q"
  using intersect_loop_gen [of q "length q" 0 ds "[]"] by (simp add: qapply_count)


lemma slice_step: "i \<le> endi \<Longrightarrow> slice tokens i endi = tokens ! nat i # slice tokens (i + 1) endi"
  by (simp add: slice_def upto_rec1 [of i endi])

lemma slice_empty: "endi < i \<Longrightarrow> slice tokens i endi = []"
  by (simp add: slice_def)

lemma slice_snoc: "s \<le> i \<Longrightarrow> slice tokens s i = slice tokens s (i - 1) @ [tokens ! nat i]"
  by (simp add: slice_def upto_rec2 [of s i])

lemma next_words_loop_eq:
  "next_words_loop hf index tokens i endi q =
     and_words hf index (content_words (slice tokens i endi)) q"
proof (induction hf index tokens i endi q rule: next_words_loop.induct)
  case (1 hf index tokens i endi q)
  show ?case
  proof (cases "i \<le> endi")
    case False
    then show ?thesis
      by (subst next_words_loop.simps) (simp add: slice_empty content_words_def)
  next
    case True
    show ?thesis
    proof (cases "tokens ! nat i = ''and'' \<or> length (tokens ! nat i) < 3")
      case skip: True
      then have "\<not> is_content (tokens ! nat i)"
        by (auto simp: is_content_def)
      then show ?thesis
        using True skip "1.IH"(1) [OF True skip]
        by (subst next_words_loop.simps) (simp add: slice_step content_words_def)
    next
      case use: False
      then have c: "is_content (tokens ! nat i)"
        by (auto simp: is_content_def)
      show ?thesis
      proof (cases "hsearch hf index search_word (tokens ! nat i)")
        case None
        then show ?thesis
          using True use c
          by (subst next_words_loop.simps) (simp add: slice_step content_words_def)
      next
        case (Some e)
        then show ?thesis
          using True use c "1.IH"(2) [OF True use Some]
          by (subst next_words_loop.simps)
            (simp add: slice_step content_words_def intersect_loop_docs)
      qed
    qed
  qed
qed

lemma first_word_loop_eq:
  "(case first_word_loop hf index tokens i endi of
      None \<Rightarrow> None
    | Some (k, fw) \<Rightarrow>
        next_words_loop hf index tokens (k + 1) endi (qapply (docs fw) init_results_helper qopen)) =
   and_group hf index (content_words (slice tokens i endi))"
proof (induction hf index tokens i endi rule: first_word_loop.induct)
  case (1 hf index tokens i endi)
  show ?case
  proof (cases "i \<le> endi")
    case False
    then show ?thesis
      by (subst first_word_loop.simps) (simp add: slice_empty content_words_def and_group_def)
  next
    case True
    show ?thesis
    proof (cases "tokens ! nat i \<noteq> ''and'' \<and> length (tokens ! nat i) \<ge> 3")
      case use: True
      then have c: "is_content (tokens ! nat i)"
        by (auto simp: is_content_def)
      show ?thesis
        using True use c
        by (subst first_word_loop.simps)
          (simp add: slice_step [OF True] content_words_def and_group_def next_words_loop_eq
            qapply_init qopen_def split: option.splits)
    next
      case skip: False
      then have c: "\<not> is_content (tokens ! nat i)"
        by (auto simp: is_content_def)
      have u: "first_word_loop hf index tokens i endi = first_word_loop hf index tokens (i + 1) endi"
        by (subst first_word_loop.simps) (simp only: True skip if_True if_False)
      show ?thesis
        using c "1.IH" [OF True skip]
        by (simp add: u slice_step [OF True] content_words_def)
    qed
  qed
qed

lemma compute_and_intersection_eq:
  "compute_and_intersection hf index tokens start endi =
     and_group hf index (content_words (slice tokens start endi))"
  using first_word_loop_eq [where hf = hf and index = index and tokens = tokens and i = start and endi = endi]
  by (simp add: compute_and_intersection_def split: option.splits prod.splits)

definition prepend :: "string list \<Rightarrow> string list list \<Rightarrow> string list list" where
  "prepend p gs = (case gs of [] \<Rightarrow> [p] | g # rest \<Rightarrow> (p @ g) # rest)"

fun split_or :: "string list \<Rightarrow> string list list" where
  "split_or [] = [[]]"
| "split_or (t # ts) = (if t = ''or'' then [] # split_or ts else prepend [t] (split_or ts))"

definition merge_group ::
  "(string \<Rightarrow> nat) \<Rightarrow> hashtable \<Rightarrow> query_result list \<Rightarrow> string list \<Rightarrow> query_result list" where
  "merge_group hf index final_results g =
     (case and_group hf index (content_words g) of
        None \<Rightarrow> final_results
      | Some and_results \<Rightarrow> merge_or_results final_results and_results)"

lemma prepend_prepend: "prepend p (prepend q gs) = prepend (p @ q) gs"
  by (simp add: prepend_def split: list.splits)

lemma or_loop_eq:
  "0 \<le> s \<Longrightarrow> s \<le> i \<Longrightarrow>
   or_loop hf index tokens i s final =
     (if i \<le> int (length tokens)
      then foldl (merge_group hf index) final
             (prepend (slice tokens s (i - 1)) (split_or (drop (nat i) tokens)))
      else final)"
proof (induction hf index tokens i s final rule: or_loop.induct)
  case (1 hf index tokens i s final)
  show ?case
  proof (cases "i \<le> int (length tokens)")
    case False
    then show ?thesis
      by (subst or_loop.simps) simp
  next
    case le: True
    show ?thesis
    proof (cases "i = int (length tokens)")
      case True
      then have d: "drop (nat i) tokens = []"
        by simp
      have "or_loop hf index tokens (i + 1) (i + 1)
          (merge_group hf index final (slice tokens s (i - 1))) =
          merge_group hf index final (slice tokens s (i - 1))"
        using True by (subst or_loop.simps) simp
      then show ?thesis
        using True d
        by (subst or_loop.simps)
          (simp add: compute_and_intersection_eq merge_group_def prepend_def)
    next
      case False
      with le have lt: "i < int (length tokens)" and n: "nat i < length tokens"
        using "1.prems" by auto
      have d: "drop (nat i) tokens = tokens ! nat i # drop (nat (i + 1)) tokens"
        using n "1.prems" by (simp add: Cons_nth_drop_Suc nat_add_distrib)
      show ?thesis
      proof (cases "tokens ! nat i = ''or''")
        case True
        have ih: "or_loop hf index tokens (i + 1) (i + 1)
            (merge_group hf index final (slice tokens s (i - 1))) =
            foldl (merge_group hf index) (merge_group hf index final (slice tokens s (i - 1)))
              (prepend (slice tokens (i + 1) i) (split_or (drop (nat (i + 1)) tokens)))"
          using "1.IH"(1) [OF le] True lt "1.prems"
          by (simp add: compute_and_intersection_eq merge_group_def)
        have p: "prepend (slice tokens (i + 1) i) (split_or (drop (nat (i + 1)) tokens)) =
            split_or (drop (nat (i + 1)) tokens)"
          by (cases "drop (nat (i + 1)) tokens") (simp_all add: slice_empty prepend_def split: list.splits)
        show ?thesis
          using le True ih p d
          by (subst or_loop.simps)
            (simp add: compute_and_intersection_eq merge_group_def prepend_def)
      next
        case no: False
        have ih: "or_loop hf index tokens (i + 1) s final =
            foldl (merge_group hf index) final
              (prepend (slice tokens s i) (split_or (drop (nat (i + 1)) tokens)))"
          using "1.IH"(2) [OF le] False no lt "1.prems" by simp
        have "prepend (slice tokens s i) (split_or (drop (nat (i + 1)) tokens)) =
            prepend (slice tokens s (i - 1)) (split_or (drop (nat i) tokens))"
          using no "1.prems" by (simp add: d slice_snoc prepend_prepend)
        then show ?thesis
          using le False no ih
          by (subst or_loop.simps) simp
      qed
    qed
  qed
qed

lemma split_or_nonempty: "split_or ts \<noteq> []"
  by (induction ts) (simp_all add: prepend_def split: list.splits)

lemma query_results_eq:
  "query_results hf index tokens = foldl (merge_group hf index) [] (split_or tokens)"
proof -
  have "prepend [] (split_or tokens) = split_or tokens"
    using split_or_nonempty [of tokens] by (simp add: prepend_def split: list.splits)
  then show ?thesis
    using or_loop_eq [of 0 0 hf index tokens "[]"]
    by (simp add: query_results_def qopen_def slice_empty)
qed

definition word_docs :: "(string \<Rightarrow> nat) \<Rightarrow> hashtable \<Rightarrow> string \<Rightarrow> doc_entry list" where
  "word_docs hf index w =
     (case hsearch hf index search_word w of None \<Rightarrow> [] | Some e \<Rightarrow> docs e)"

definition doc_count :: "doc_entry list \<Rightarrow> int \<Rightarrow> int" where
  "doc_count ds d = (case qsearch ds search_doc d of None \<Rightarrow> 0 | Some e \<Rightarrow> count e)"

lemma and_words_absent:
  "\<exists>w \<in> set ws. hsearch hf index search_word w = None \<Longrightarrow> and_words hf index ws rs = None"
  by (induction ws arbitrary: rs) (auto split: option.splits)

lemma and_words_present:
  "\<forall>w \<in> set ws. hsearch hf index search_word w \<noteq> None \<Longrightarrow>
   and_words hf index ws rs =
     Some (foldl (\<lambda>r w. intersect_docs (word_docs hf index w) r) rs ws)"
  by (induction ws arbitrary: rs) (auto simp: word_docs_def split: option.splits)

lemma intersect_docs_eq:
  "intersect_docs ds rs =
     map (\<lambda>qr. qr\<lparr>rank := min (rank qr) (doc_count ds (qdocID qr))\<rparr>)
       (filter (\<lambda>qr. qdocID qr \<in> docID ` set ds) rs)"
proof (induction rs)
  case Nil
  show ?case by (simp add: intersect_docs_def List.map_filter_simps)
next
  case (Cons qr rs)
  show ?case
  proof (cases "find (\<lambda>d. docID d = qdocID qr) ds")
    case None
    then have "qdocID qr \<notin> docID ` set ds"
      by (auto simp: find_None_iff)
    with None Cons show ?thesis
      by (simp add: intersect_docs_def List.map_filter_simps)
  next
    case (Some e)
    then have "qdocID qr \<in> docID ` set ds"
      by (auto simp: find_Some_iff image_iff) (metis nth_mem)
    moreover have "doc_count ds (qdocID qr) = count e"
      using Some by (simp add: doc_count_def qsearch_def search_doc_def)
    ultimately show ?thesis
      using Some Cons by (simp add: intersect_docs_def List.map_filter_simps)
  qed
qed

lemma foldl_intersect_docs:
  "foldl (\<lambda>r w. intersect_docs (word_docs hf index w) r) rs ws =
     map (\<lambda>qr. qr\<lparr>rank := foldl min (rank qr)
                    (map (\<lambda>w. doc_count (word_docs hf index w) (qdocID qr)) ws)\<rparr>)
       (filter (\<lambda>qr. \<forall>w \<in> set ws. qdocID qr \<in> docID ` set (word_docs hf index w)) rs)"
proof (induction ws arbitrary: rs)
  case Nil
  show ?case by (simp add: map_idI)
next
  case (Cons w ws)
  let ?F = "\<lambda>r w. intersect_docs (word_docs hf index w) r"
  have "foldl ?F rs (w # ws) = foldl ?F (intersect_docs (word_docs hf index w) rs) ws"
    by simp
  also have "\<dots> =
      map (\<lambda>qr. qr\<lparr>rank := foldl min (rank qr)
                    (map (\<lambda>w. doc_count (word_docs hf index w) (qdocID qr)) ws)\<rparr>)
        (filter (\<lambda>qr. \<forall>w \<in> set ws. qdocID qr \<in> docID ` set (word_docs hf index w))
           (intersect_docs (word_docs hf index w) rs))"
    by (rule Cons.IH)
  also have "\<dots> =
      map (\<lambda>qr. qr\<lparr>rank := foldl min (rank qr)
                    (map (\<lambda>w. doc_count (word_docs hf index w) (qdocID qr)) (w # ws))\<rparr>)
        (filter (\<lambda>qr. \<forall>w \<in> set (w # ws). qdocID qr \<in> docID ` set (word_docs hf index w)) rs)"
    by (simp add: intersect_docs_eq filter_map comp_def conj_commute)
  finally show ?case .
qed

lemma foldl_min_Min: "foldl min (r :: int) cs = Min (set (r # cs))"
proof -
  have "foldl min r cs = fold min cs r"
    by (simp add: foldl_conv_fold min.commute)
  then show ?thesis
    by (simp only: Min.set_eq_fold)
qed

lemma doc_count_distinct:
  "distinct (map docID ds) \<Longrightarrow> e \<in> set ds \<Longrightarrow> doc_count ds (docID e) = count e"
proof (induction ds)
  case Nil
  then show ?case by simp
next
  case (Cons x ds)
  then show ?case
    by (cases "docID x = docID e")
      (auto simp: doc_count_def qsearch_def search_doc_def image_iff)
qed

text \<open>
  C1.  For an AND-group \<open>tokens[start..end]\<close> with content words \<open>w # ws\<close>: when any of
  them is absent from the index the result is empty (NULL); when all are present, the
  result lists the documents of the first word's doc list that every other content
  word's doc list holds, each with the minimum of the content words' counts for that
  document as its rank.  The index is as the data model has it: the first word's doc
  list names no document twice.
\<close>

theorem and_group_min_rank:
  assumes cws: "content_words (slice tokens start endi) = w # ws"
    and dist: "distinct (map docID (word_docs hf index w))"
  shows "((\<exists>v \<in> set (w # ws). hsearch hf index search_word v = None) \<longrightarrow>
            compute_and_intersection hf index tokens start endi = None) \<and>
         ((\<forall>v \<in> set (w # ws). hsearch hf index search_word v \<noteq> None) \<longrightarrow>
            (\<exists>rs. compute_and_intersection hf index tokens start endi = Some rs \<and>
               map qdocID rs =
                 filter (\<lambda>d. \<forall>v \<in> set ws. d \<in> docID ` set (word_docs hf index v))
                   (map docID (word_docs hf index w)) \<and>
               (\<forall>qr \<in> set rs. rank qr =
                  Min ((\<lambda>v. doc_count (word_docs hf index v) (qdocID qr)) ` set (w # ws)))))"
proof (intro conjI impI)
  assume "\<exists>v \<in> set (w # ws). hsearch hf index search_word v = None"
  then show "compute_and_intersection hf index tokens start endi = None"
    using and_words_absent [of ws hf index]
    by (auto simp: compute_and_intersection_eq cws and_group_def split: option.splits)
next
  assume all: "\<forall>v \<in> set (w # ws). hsearch hf index search_word v \<noteq> None"
  then obtain e where e: "hsearch hf index search_word w = Some e"
    by auto
  then have wd: "word_docs hf index w = docs e"
    by (simp add: word_docs_def)
  let ?init = "map (\<lambda>d. \<lparr>qdocID = docID d, rank = count d\<rparr>) (docs e)"
  let ?rs = "foldl (\<lambda>r v. intersect_docs (word_docs hf index v) r) ?init ws"
  have c: "compute_and_intersection hf index tokens start endi = Some ?rs"
    using all e and_words_present [of ws hf index ?init]
    by (simp add: compute_and_intersection_eq cws and_group_def)
  have ids: "map qdocID ?rs =
      filter (\<lambda>d. \<forall>v \<in> set ws. d \<in> docID ` set (word_docs hf index v))
        (map docID (word_docs hf index w))"
    by (simp add: foldl_intersect_docs wd filter_map comp_def)
  have ranks: "rank qr = Min ((\<lambda>v. doc_count (word_docs hf index v) (qdocID qr)) ` set (w # ws))"
    if "qr \<in> set ?rs" for qr
  proof -
    from that obtain d where d: "d \<in> set (docs e)"
      and qr: "qr = \<lparr>qdocID = docID d,
         rank = foldl min (count d) (map (\<lambda>v. doc_count (word_docs hf index v) (docID d)) ws)\<rparr>"
      by (auto simp: foldl_intersect_docs)
    have "count d = doc_count (word_docs hf index w) (docID d)"
      using doc_count_distinct [of "docs e" d] dist d wd by simp
    then show ?thesis
      by (simp add: qr foldl_min_Min)
  qed
  show "\<exists>rs. compute_and_intersection hf index tokens start endi = Some rs \<and>
      map qdocID rs =
        filter (\<lambda>d. \<forall>v \<in> set ws. d \<in> docID ` set (word_docs hf index v))
          (map docID (word_docs hf index w)) \<and>
      (\<forall>qr \<in> set rs. rank qr =
         Min ((\<lambda>v. doc_count (word_docs hf index v) (qdocID qr)) ` set (w # ws)))"
    using c ids ranks by blast
qed

text \<open>The indexes of the spec's examples: \<open>cat: {1:2}\<close>, and \<open>cat: {1:2}, dog: {1:5}\<close>.\<close>

definition cat_index :: hashtable where
  "cat_index = hput length (hopen 500) \<lparr>word = ''cat'', docs = [\<lparr>docID = 1, count = 2\<rparr>]\<rparr> ''cat''"

definition cat_dog_index :: hashtable where
  "cat_dog_index =
     hput length cat_index \<lparr>word = ''dog'', docs = [\<lparr>docID = 1, count = 5\<rparr>]\<rparr> ''dog''"

theorem and_group_min_rank_witness:
  "compute_and_intersection length cat_dog_index [''cat'', ''and'', ''dog''] 0 2 =
     Some [\<lparr>qdocID = 1, rank = 2\<rparr>]"
proof -
  have cws: "content_words (slice [''cat'', ''and'', ''dog''] 0 2) = [''cat'', ''dog'']"
    by code_simp
  have wc: "word_docs length cat_dog_index ''cat'' = [\<lparr>docID = 1, count = 2\<rparr>]"
    by code_simp
  have wd: "word_docs length cat_dog_index ''dog'' = [\<lparr>docID = 1, count = 5\<rparr>]"
    by code_simp
  have dist: "distinct (map docID (word_docs length cat_dog_index ''cat''))"
    by (simp add: wc)
  have pres: "\<forall>v \<in> set [''cat'', ''dog'']. hsearch length cat_dog_index search_word v \<noteq> None"
    by code_simp
  have dc: "doc_count [\<lparr>docID = 1, count = 2\<rparr>] 1 = 2" "doc_count [\<lparr>docID = 1, count = 5\<rparr>] 1 = 5"
    by (simp_all add: doc_count_def qsearch_def search_doc_def)
  from and_group_min_rank [OF cws dist] pres
  obtain rs where r: "compute_and_intersection length cat_dog_index [''cat'', ''and'', ''dog''] 0 2 = Some rs"
    and ids: "map qdocID rs =
        filter (\<lambda>d. \<forall>v \<in> set [''dog'']. d \<in> docID ` set (word_docs length cat_dog_index v))
          (map docID (word_docs length cat_dog_index ''cat''))"
    and ranks: "\<forall>qr \<in> set rs. rank qr =
        Min ((\<lambda>v. doc_count (word_docs length cat_dog_index v) (qdocID qr)) ` set [''cat'', ''dog''])"
    by blast
  from ids have "map qdocID rs = [1]"
    by (simp add: wc wd)
  then obtain qr where rs: "rs = [qr]" and q: "qdocID qr = 1"
    by auto
  from ranks rs q have "rank qr = 2"
    by (simp add: wc wd dc)
  with q have "qr = \<lparr>qdocID = 1, rank = 2\<rparr>"
    by simp
  with r rs show ?thesis
    by simp
qed











lemma content_words_prepend:
  "map content_words (prepend p gs) = prepend (content_words p) (map content_words gs)"
  by (simp add: prepend_def content_words_def split: list.splits)

lemma split_or_drop_and:
  "map content_words (split_or (filter (\<lambda>t. t \<noteq> ''and'') ts)) = map content_words (split_or ts)"
proof (induction ts)
  case Nil
  show ?case by simp
next
  case (Cons t ts)
  show ?case
  proof (cases "t = ''and''")
    case True
    have "prepend (content_words [t]) (map content_words (split_or ts)) = map content_words (split_or ts)"
      using True split_or_nonempty [of ts]
      by (simp add: prepend_def content_words_def is_content_def split: list.splits)
    then show ?thesis
      using True Cons by (simp add: content_words_prepend)
  next
    case False
    then show ?thesis
      using Cons by (simp add: content_words_prepend)
  qed
qed

lemma foldl_merge_group:
  "foldl (merge_group hf index) final gs =
     foldl (\<lambda>f ws. case and_group hf index ws of None \<Rightarrow> f | Some a \<Rightarrow> merge_or_results f a)
       final (map content_words gs)"
  by (induction gs arbitrary: final) (simp_all add: merge_group_def)

lemma query_results_drop_and:
  "query_results hf index (filter (\<lambda>t. t \<noteq> ''and'') tokens) = query_results hf index tokens"
  by (simp add: query_results_eq foldl_merge_group split_or_drop_and)

text \<open>
  C7.  For every index and all tokens \<open>a\<close> and \<open>b\<close>, content words among them, the
  queries \<open>a b\<close> and \<open>a and b\<close> have the same final results, in the same order and with
  the same ranks.
\<close>

theorem and_connective_noop:
  "query_results hf index [a, b] = query_results hf index [a, ''and'', b]"
proof -
  have "filter (\<lambda>t. t \<noteq> ''and'') [a, ''and'', b] = filter (\<lambda>t. t \<noteq> ''and'') [a, b]"
    by simp
  then show ?thesis
    using query_results_drop_and [of hf index "[a, ''and'', b]"]
      query_results_drop_and [of hf index "[a, b]"]
    by simp
qed

section \<open>Result ranker and printer (query.c)\<close>

text \<open>
  The file system is outside the model: a page directory is given by what \<open>pageload\<close>
  returns for each document id (NULL when the page file cannot be opened or read).
  \<open>html\<close> is optional because \<open>webpage_getHTML\<close> may return NULL, which
  \<open>extract_from_tag\<close> checks.
\<close>

record webpage =
  url :: string
  depth :: int
  html :: "string option"

type_synonym page_directory = "int \<Rightarrow> webpage option"

definition pageload :: "int \<Rightarrow> page_directory \<Rightarrow> webpage option" where
  "pageload i dirnm = dirnm i"

text \<open>
  \<open>strstr\<close> returns the offset of the first occurrence of the needle; the pointers of
  \<open>extract_from_tag\<close> are offsets from \<open>start\<close>.
\<close>

fun strstr :: "string \<Rightarrow> string \<Rightarrow> nat option" where
  "strstr [] needle = (if needle = [] then Some 0 else None)"
| "strstr (c # cs) needle =
     (if take (length needle) (c # cs) = needle then Some 0
      else map_option Suc (strstr cs needle))"

definition extract_from_tag :: "string option \<Rightarrow> string \<Rightarrow> string \<Rightarrow> int \<Rightarrow> string option" where
  "extract_from_tag html_text start_tag end_tag max_len =
     (case html_text of
        None \<Rightarrow> None
      | Some h \<Rightarrow>
          (case strstr h start_tag of
             None \<Rightarrow> None
           | Some p \<Rightarrow>
               (let start = drop (p + length start_tag) h;
                    head_end = strstr start ''</head>'';
                    body_start = strstr start ''<body>'';
                    search_limit =
                      (case (head_end, body_start) of
                         (Some he, Some bs) \<Rightarrow> Some (if he < bs then he else bs)
                       | (Some he, None) \<Rightarrow> Some he
                       | (None, bs) \<Rightarrow> bs)
                in (case strstr start end_tag of
                      None \<Rightarrow> None
                    | Some e \<Rightarrow>
                        if (case search_limit of None \<Rightarrow> False | Some l \<Rightarrow> e > l) then None
                        else
                          (let len = (if int e > max_len then max_len else int e) in
                           Some (map (\<lambda>c. if c = CHR 0x0A \<or> c = CHR 0x0D then CHR '' '' else c)
                                   (take (nat len) start)))))))"

definition compare_results :: "query_result \<Rightarrow> query_result \<Rightarrow> int" where
  "compare_results res_a res_b = rank res_b - rank res_a"

definition fill_array_helper :: "'a \<Rightarrow> 'a list \<Rightarrow> 'a list" where
  "fill_array_helper elementp g_results_array = g_results_array @ [elementp]"

text \<open>
  What \<open>print_results\<close> writes, one value for each \<open>printf\<close> group: the no-match line,
  the header with the number of matches, the warning on \<open>stderr\<close> for a page that does
  not load, and the four lines of a result (title, URL, description, rank).
\<close>

datatype printed =
  No_documents_match
| Matches int
| Warning int
| Result string string string int

definition print_row :: "page_directory \<Rightarrow> query_result \<Rightarrow> printed list" where
  "print_row pageDirectory qr =
     (case pageload (qdocID qr) pageDirectory of
        None \<Rightarrow> [Warning (qdocID qr)]
      | Some page \<Rightarrow>
          [Result
             (case extract_from_tag (html page) ''<title>'' ''</title>'' 200 of
                Some title \<Rightarrow> title | None \<Rightarrow> ''No Title'')
             (url page)
             (case extract_from_tag (html page)
                     (''<meta name='' @ [CHR 0x22] @ ''description'' @ [CHR 0x22] @
                      '' content='' @ [CHR 0x22])
                     [CHR 0x22] 128 of
                Some desc \<Rightarrow> desc | None \<Rightarrow> ''No Description'')
             (rank qr)])"


definition print_results ::
  "((query_result \<Rightarrow> query_result \<Rightarrow> int) \<Rightarrow> query_result list \<Rightarrow> query_result list) \<Rightarrow>
   query_result list \<Rightarrow> page_directory \<Rightarrow> bool \<Rightarrow> printed list" where
  "print_results qsort final_results pageDirectory quiet_mode =
     (let num_final = qapply final_results count_helper 0 in
      if num_final = 0 then [No_documents_match]
      else
        (let results_array = qsort compare_results (qapply final_results fill_array_helper [])
         in Matches (int num_final) # concat (map (print_row pageDirectory) results_array)))"

definition process_query ::
  "(string \<Rightarrow> nat) \<Rightarrow>
   ((query_result \<Rightarrow> query_result \<Rightarrow> int) \<Rightarrow> query_result list \<Rightarrow> query_result list) \<Rightarrow>
   hashtable \<Rightarrow> page_directory \<Rightarrow> string list \<Rightarrow> printed list" where
  "process_query hf qsort index pageDirectory tokens =
     print_results qsort (query_results hf index tokens) pageDirectory False"




















section \<open>Index construction (indexer.c)\<close>

text \<open>
  \<open>webpage_getNextWord\<close> (\<open>webpage.c\<close>) is not among the sources.  The inner loop of
  \<open>build_index\<close> calls it until it returns no further word; the words it returns for
  a page, in order, are that page's word stream, given by the parameter \<open>getwords\<close>.

  \<open>index_word\<close> is the body of the inner loop for one word of document \<open>docid\<close>.  The
  two writes through the pointers returned by \<open>hsearch\<close> and \<open>qsearch\<close> (a new doc
  entry put on the found word's queue, and \<open>found_doc->count++\<close>) are \<open>hupdate\<close>s of
  the entry found.
\<close>

definition index_word :: "(string \<Rightarrow> nat) \<Rightarrow> int \<Rightarrow> hashtable \<Rightarrow> string \<Rightarrow> hashtable" where
  "index_word hf docid index wd =
     (case NormalizeWord wd of
        None \<Rightarrow> index
      | Some normalized \<Rightarrow>
          (case hsearch hf index search_word normalized of
             None \<Rightarrow>
               hput hf index
                 \<lparr>word = normalized, docs = qput qopen \<lparr>docID = docid, count = 1\<rparr>\<rparr>
                 normalized
           | Some found_word \<Rightarrow>
               (case qsearch (docs found_word) search_doc docid of
                  None \<Rightarrow>
                    hupdate hf index search_word normalized
                      (\<lambda>e. e\<lparr>docs := qput (docs e) \<lparr>docID = docid, count = 1\<rparr>\<rparr>)
                | Some found_doc \<Rightarrow>
                    hupdate hf index search_word normalized
                      (\<lambda>e. e\<lparr>docs := qupdate (docs e) search_doc docid
                                          (\<lambda>d. d\<lparr>count := count d + 1\<rparr>)\<rparr>))))"

text \<open>
  The outer loop runs until \<open>pageload\<close> fails.  In the model a page directory may hold
  a page for every id, so the loop is a partial function: \<open>None\<close> means that it does
  not return.
\<close>

partial_function (option) build_loop ::
  "(webpage \<Rightarrow> string list) \<Rightarrow> (string \<Rightarrow> nat) \<Rightarrow> page_directory \<Rightarrow> int \<Rightarrow> hashtable \<Rightarrow>
   hashtable option" where
  "build_loop getwords hf pageDir docid index =
     (case pageload docid pageDir of
        None \<Rightarrow> Some index
      | Some page \<Rightarrow>
          build_loop getwords hf pageDir (docid + 1)
            (foldl (index_word hf docid) index (getwords page)))"

definition build_index ::
  "(webpage \<Rightarrow> string list) \<Rightarrow> (string \<Rightarrow> nat) \<Rightarrow> page_directory \<Rightarrow> hashtable option" where
  "build_index getwords hf pageDir = build_loop getwords hf pageDir 1 (hopen 500)"

text \<open>
  The number of times a normalized word occurs in a word stream, and the doc list that
  a history of documents (each with the words read from it so far) gives a word.
\<close>

definition occurrences :: "string list \<Rightarrow> string \<Rightarrow> nat" where
  "occurrences ws nw = length (filter (\<lambda>t. NormalizeWord t = Some nw) ws)"

definition docs_of :: "(int \<times> string list) list \<Rightarrow> string \<Rightarrow> doc_entry list" where
  "docs_of hist nw =
     map (\<lambda>(d, ws). \<lparr>docID = d, count = int (occurrences ws nw)\<rparr>)
       (filter (\<lambda>(d, ws). occurrences ws nw > 0) hist)"

text \<open>
  A table is well formed when it has a bucket, every entry sits in the bucket of its
  own word, and no bucket holds two entries of one word.
\<close>

definition table_ok :: "(string \<Rightarrow> nat) \<Rightarrow> hashtable \<Rightarrow> bool" where
  "table_ok hf htp =
     (length htp > 0 \<and>
      (\<forall>i < length htp. \<forall>e \<in> set (htp ! i). hslot hf htp (word e) = i) \<and>
      (\<forall>b \<in> set htp. distinct (map word b)))"

lemma hslot_less: "length t > 0 \<Longrightarrow> hslot hf t k < length t"
  by (simp add: hslot_def)

lemma table_ok_hopen: "n > 0 \<Longrightarrow> table_ok hf (hopen n)"
  by (simp add: table_ok_def hopen_def qopen_def)

lemma hsearch_hopen: "n > 0 \<Longrightarrow> hsearch hf (hopen n) search_word k = None"
  by (simp add: hsearch_def hopen_def qopen_def qsearch_def hslot_def)

lemma hslot_update [simp]: "hslot hf (t[i := b]) k = hslot hf t k"
  by (simp add: hslot_def)

lemma find_append:
  "find P (xs @ ys) = (case find P xs of None \<Rightarrow> find P ys | Some x \<Rightarrow> Some x)"
  by (induction xs) simp_all


lemma hput_new:
  assumes ok: "table_ok hf t" and none: "hsearch hf t search_word k0 = None" and w: "word e = k0"
  shows "table_ok hf (hput hf t e k0)"
    and "hsearch hf (hput hf t e k0) search_word k = (if k = k0 then Some e else hsearch hf t search_word k)"
proof -
  let ?i = "hslot hf t k0"
  from ok have len: "length t > 0" and i: "?i < length t"
    by (simp_all add: table_ok_def hslot_less)
  from none have nf: "find (\<lambda>x. word x = k0) (t ! ?i) = None"
    by (simp add: hsearch_def qsearch_def search_word_def)
  then have notin: "k0 \<notin> word ` set (t ! ?i)"
    by (auto simp: find_None_iff)
  have place: "\<forall>j < length t. \<forall>x \<in> set (t[?i := t ! ?i @ [e]] ! j). hslot hf t (word x) = j"
    using ok w i by (auto simp: table_ok_def nth_list_update)
  have dist: "\<forall>b \<in> set (t[?i := t ! ?i @ [e]]). distinct (map word b)"
  proof
    fix b assume "b \<in> set (t[?i := t ! ?i @ [e]])"
    then have "b = t ! ?i @ [e] \<or> b \<in> set t"
      by (auto dest: set_update_subset_insert [THEN subsetD])
    then show "distinct (map word b)"
      using ok i notin w by (auto simp: table_ok_def)
  qed
  show "table_ok hf (hput hf t e k0)"
    using len place dist by (simp add: table_ok_def hput_def qput_def)
  show "hsearch hf (hput hf t e k0) search_word k = (if k = k0 then Some e else hsearch hf t search_word k)"
  proof (cases "hslot hf t k = ?i")
    case True
    then show ?thesis
      using i nf w
      by (auto simp: hsearch_def hput_def qput_def qsearch_def search_word_def find_append
          split: option.splits)
  next
    case False
    then have "k \<noteq> k0" by auto
    with False show ?thesis
      using i by (simp add: hsearch_def hput_def)
  qed
qed

lemma find_qupdate_word:
  "find (\<lambda>x. word x = k0) b = Some e \<Longrightarrow> word (f e) = k0 \<Longrightarrow>
   find (\<lambda>x. word x = k) (qupdate b search_word k0 f) =
     (if k = k0 then Some (f e) else find (\<lambda>x. word x = k) b)"
  by (induction b) (auto simp: search_word_def)

lemma map_word_qupdate:
  "find (\<lambda>x. word x = k0) b = Some e \<Longrightarrow> word (f e) = k0 \<Longrightarrow>
   map word (qupdate b search_word k0 f) = map word b"
  by (induction b) (auto simp: search_word_def)

lemma hupdate_found:
  assumes ok: "table_ok hf t" and some: "hsearch hf t search_word k0 = Some e"
    and w: "word (f e) = k0"
  shows "table_ok hf (hupdate hf t search_word k0 f)"
    and "hsearch hf (hupdate hf t search_word k0 f) search_word k =
           (if k = k0 then Some (f e) else hsearch hf t search_word k)"
proof -
  let ?i = "hslot hf t k0"
  let ?b = "qupdate (t ! ?i) search_word k0 f"
  from ok have len: "length t > 0" and i: "?i < length t"
    by (simp_all add: table_ok_def hslot_less)
  from some have fd: "find (\<lambda>x. word x = k0) (t ! ?i) = Some e"
    by (simp add: hsearch_def qsearch_def search_word_def)
  have mw: "map word ?b = map word (t ! ?i)"
    using map_word_qupdate [where b = "t ! ?i" and e = e and f = f and ?k0.0 = k0, OF fd w] .
  have wset: "word ` set ?b = word ` set (t ! ?i)"
    using mw by (metis set_map)
  have place: "\<forall>j < length t. \<forall>x \<in> set (t[?i := ?b] ! j). hslot hf t (word x) = j"
  proof (intro allI impI ballI)
    fix j x assume j: "j < length t" and x: "x \<in> set (t[?i := ?b] ! j)"
    show "hslot hf t (word x) = j"
    proof (cases "j = ?i")
      case True
      with x i have "word x \<in> word ` set (t ! ?i)"
        using wset by auto
      then obtain y where y: "y \<in> set (t ! ?i)" "word y = word x"
        by auto
      from ok i have "\<forall>z \<in> set (t ! ?i). hslot hf t (word z) = ?i"
        by (simp add: table_ok_def)
      with y have "hslot hf t (word x) = ?i"
        by metis
      with True show ?thesis
        by simp
    next
      case False
      with x j show ?thesis
        using ok by (auto simp: table_ok_def)
    qed
  qed
  have dist: "\<forall>b \<in> set (t[?i := ?b]). distinct (map word b)"
  proof
    fix b assume "b \<in> set (t[?i := ?b])"
    then have "b = ?b \<or> b \<in> set t"
      by (auto dest: set_update_subset_insert [THEN subsetD])
    then show "distinct (map word b)"
      using ok i mw by (auto simp: table_ok_def)
  qed
  show "table_ok hf (hupdate hf t search_word k0 f)"
    using len place dist by (simp add: table_ok_def hupdate_def)
  show "hsearch hf (hupdate hf t search_word k0 f) search_word k =
      (if k = k0 then Some (f e) else hsearch hf t search_word k)"
  proof (cases "hslot hf t k = ?i")
    case True
    then show ?thesis
      using i find_qupdate_word [where b = "t ! ?i" and e = e and f = f and k = k and ?k0.0 = k0, OF fd w]
      by (simp add: hsearch_def hupdate_def qsearch_def search_word_def)
  next
    case False
    then have "k \<noteq> k0" by auto
    with False show ?thesis
      using i by (simp add: hsearch_def hupdate_def)
  qed
qed


text \<open>
  The invariant of index construction: the table is well formed, and looking a word up
  gives the entry whose doc list is the one the history so far gives that word (no
  entry when the word has not occurred).
\<close>

definition index_inv :: "(string \<Rightarrow> nat) \<Rightarrow> hashtable \<Rightarrow> (int \<times> string list) list \<Rightarrow> bool" where
  "index_inv hf t hist =
     (table_ok hf t \<and>
      (\<forall>nw. hsearch hf t search_word nw =
         (if docs_of hist nw = [] then None
          else Some \<lparr>word = nw, docs = docs_of hist nw\<rparr>)))"

lemma docs_of_snoc:
  "docs_of (hist @ [(d, ws)]) nw =
     docs_of hist nw @
     (if occurrences ws nw > 0 then [\<lparr>docID = d, count = int (occurrences ws nw)\<rparr>] else [])"
  by (simp add: docs_of_def)

lemma occurrences_snoc:
  "occurrences (ws @ [w]) nw = occurrences ws nw + (if NormalizeWord w = Some nw then 1 else 0)"
  by (simp add: occurrences_def)

lemma docs_of_docIDs: "docID ` set (docs_of hist nw) \<subseteq> fst ` set hist"
  by (force simp: docs_of_def)

lemma find_docs_of_new:
  "d \<notin> fst ` set hist \<Longrightarrow> find (\<lambda>e. docID e = d) (docs_of hist nw) = None"
  using docs_of_docIDs [of hist nw] by (auto simp: find_None_iff)

lemma qupdate_append_new:
  "find (\<lambda>e. searchfn e key) xs = None \<Longrightarrow>
   qupdate (xs @ ys) searchfn key f = xs @ qupdate ys searchfn key f"
  by (induction xs) (auto split: if_splits)

lemma index_word_inv:
  assumes inv: "index_inv hf t (hist @ [(d, ws)])" and new: "d \<notin> fst ` set hist"
  shows "index_inv hf (index_word hf d t w) (hist @ [(d, ws @ [w])])"
proof (cases "NormalizeWord w")
  case None
  then have "docs_of (hist @ [(d, ws @ [w])]) nw = docs_of (hist @ [(d, ws)]) nw" for nw
    by (simp add: docs_of_snoc occurrences_snoc)
  with inv None show ?thesis
    by (simp add: index_inv_def index_word_def)
next
  case (Some n)
  from inv have ok: "table_ok hf t"
    and look: "\<And>nw. hsearch hf t search_word nw =
         (if docs_of (hist @ [(d, ws)]) nw = [] then None
          else Some \<lparr>word = nw, docs = docs_of (hist @ [(d, ws)]) nw\<rparr>)"
    by (simp_all add: index_inv_def)
  have other: "docs_of (hist @ [(d, ws @ [w])]) nw = docs_of (hist @ [(d, ws)]) nw" if "nw \<noteq> n" for nw
    using that Some by (simp add: docs_of_snoc occurrences_snoc)
  have same: "docs_of (hist @ [(d, ws @ [w])]) n =
      docs_of hist n @ [\<lparr>docID = d, count = int (occurrences ws n) + 1\<rparr>]"
    using Some by (simp add: docs_of_snoc occurrences_snoc)
  show ?thesis
  proof (cases "hsearch hf t search_word n")
    case None
    with look [of n] have e: "docs_of hist n = []" and z: "occurrences ws n = 0"
      by (auto simp: docs_of_snoc split: if_splits)
    let ?e = "\<lparr>word = n, docs = qput qopen \<lparr>docID = d, count = 1\<rparr>\<rparr>"
    have iw: "index_word hf d t w = hput hf t ?e n"
      using Some None by (simp add: index_word_def)
    have "table_ok hf (hput hf t ?e n)"
      using hput_new(1) [where e = ?e, OF ok None] by simp
    moreover have "hsearch hf (hput hf t ?e n) search_word nw =
        (if docs_of (hist @ [(d, ws @ [w])]) nw = [] then None
         else Some \<lparr>word = nw, docs = docs_of (hist @ [(d, ws @ [w])]) nw\<rparr>)" for nw
    proof (cases "nw = n")
      case True
      then show ?thesis
        using hput_new(2) [where e = ?e and k = n, OF ok None] same e z
        by (simp add: qput_def qopen_def)
    next
      case False
      then show ?thesis
        using hput_new(2) [where e = ?e and k = nw, OF ok None] other [OF False] look [of nw]
        by simp
    qed
    ultimately show ?thesis
      by (simp add: index_inv_def iw)
  next
    case (Some e)
    with look [of n] have ne: "docs_of (hist @ [(d, ws)]) n \<noteq> []"
      and e: "e = \<lparr>word = n, docs = docs_of (hist @ [(d, ws)]) n\<rparr>"
      by (auto split: if_splits)
    have nf: "find (\<lambda>x. docID x = d) (docs_of hist n) = None"
      using new by (rule find_docs_of_new)
    have nf': "find (\<lambda>x. search_doc x d) (docs_of hist n) = None"
      using nf by (simp add: search_doc_def)
    show ?thesis
    proof (cases "occurrences ws n > 0")
      case False
      then have d0: "docs e = docs_of hist n"
        by (simp add: e docs_of_snoc)
      then have q: "qsearch (docs e) search_doc d = None"
        using nf by (simp add: qsearch_def search_doc_def)
      let ?f = "\<lambda>e. e\<lparr>docs := qput (docs e) \<lparr>docID = d, count = 1\<rparr>\<rparr>"
      have iw: "index_word hf d t w = hupdate hf t search_word n ?f"
        using \<open>NormalizeWord w = Some n\<close> Some q by (simp add: index_word_def)
      have fe: "?f e = \<lparr>word = n, docs = docs_of (hist @ [(d, ws @ [w])]) n\<rparr>"
        using False d0 by (simp add: e same qput_def)
      have w: "word (?f e) = n"
        by (simp add: e)
      have "table_ok hf (hupdate hf t search_word n ?f)"
        using hupdate_found(1) [where f = ?f, OF ok Some w] .
      moreover have "hsearch hf (hupdate hf t search_word n ?f) search_word nw =
          (if docs_of (hist @ [(d, ws @ [w])]) nw = [] then None
           else Some \<lparr>word = nw, docs = docs_of (hist @ [(d, ws @ [w])]) nw\<rparr>)" for nw
      proof (cases "nw = n")
        case True
        then show ?thesis
          using hupdate_found(2) [where f = ?f and k = n, OF ok Some w] fe same by simp
      next
        case False
        then show ?thesis
          using hupdate_found(2) [where f = ?f and k = nw, OF ok Some w] other [OF False] look [of nw] by simp
      qed
      ultimately show ?thesis
        by (simp add: index_inv_def iw)
    next
      case True
      let ?x = "\<lparr>docID = d, count = int (occurrences ws n)\<rparr>"
      have d1: "docs e = docs_of hist n @ [?x]"
        using True by (simp add: e docs_of_snoc)
      then have q: "qsearch (docs e) search_doc d = Some ?x"
        using nf by (simp add: qsearch_def search_doc_def find_append)
      let ?f = "\<lambda>e. e\<lparr>docs := qupdate (docs e) search_doc d (\<lambda>d. d\<lparr>count := count d + 1\<rparr>)\<rparr>"
      have iw: "index_word hf d t w = hupdate hf t search_word n ?f"
        using \<open>NormalizeWord w = Some n\<close> Some q by (simp add: index_word_def)
      have "qupdate (docs_of hist n @ [?x]) search_doc d (\<lambda>d. d\<lparr>count := count d + 1\<rparr>) =
          docs_of hist n @ [\<lparr>docID = d, count = int (occurrences ws n) + 1\<rparr>]"
        using nf' by (simp add: qupdate_append_new search_doc_def)
      then have fe: "?f e = \<lparr>word = n, docs = docs_of (hist @ [(d, ws @ [w])]) n\<rparr>"
        using d1 by (simp add: e same)
      have w: "word (?f e) = n"
        by (simp add: e)
      have "table_ok hf (hupdate hf t search_word n ?f)"
        using hupdate_found(1) [where f = ?f, OF ok Some w] .
      moreover have "hsearch hf (hupdate hf t search_word n ?f) search_word nw =
          (if docs_of (hist @ [(d, ws @ [w])]) nw = [] then None
           else Some \<lparr>word = nw, docs = docs_of (hist @ [(d, ws @ [w])]) nw\<rparr>)" for nw
      proof (cases "nw = n")
        case True
        then show ?thesis
          using hupdate_found(2) [where f = ?f and k = n, OF ok Some w] fe same by simp
      next
        case False
        then show ?thesis
          using hupdate_found(2) [where f = ?f and k = nw, OF ok Some w] other [OF False] look [of nw] by simp
      qed
      ultimately show ?thesis
        by (simp add: index_inv_def iw)
    qed
  qed
qed

lemma index_words_inv:
  "index_inv hf t (hist @ [(d, ws)]) \<Longrightarrow> d \<notin> fst ` set hist \<Longrightarrow>
   index_inv hf (foldl (index_word hf d) t ws') (hist @ [(d, ws @ ws')])"
proof (induction ws' arbitrary: t ws)
  case Nil
  then show ?case by simp
next
  case (Cons w ws')
  from index_word_inv [OF Cons.prems] Cons.prems(2)
  have "index_inv hf (foldl (index_word hf d) (index_word hf d t w) ws') (hist @ [(d, (ws @ [w]) @ ws')])"
    by (rule Cons.IH)
  then show ?case by simp
qed

lemma index_page_inv:
  assumes "index_inv hf t hist" and "d \<notin> fst ` set hist"
  shows "index_inv hf (foldl (index_word hf d) t ws) (hist @ [(d, ws)])"
proof -
  have "docs_of (hist @ [(d, [])]) nw = docs_of hist nw" for nw
    by (simp add: docs_of_snoc occurrences_def)
  with assms(1) have "index_inv hf t (hist @ [(d, [])])"
    by (simp add: index_inv_def)
  from index_words_inv [OF this assms(2), of ws] show ?thesis
    by simp
qed

text \<open>The documents \<open>1..n\<close> of a page directory with their word streams.\<close>

definition corpus_hist :: "(webpage \<Rightarrow> string list) \<Rightarrow> page_directory \<Rightarrow> int \<Rightarrow> (int \<times> string list) list" where
  "corpus_hist getwords pageDir n = map (\<lambda>d. (d, getwords (the (pageDir d)))) [1..n]"

lemma corpus_hist_fst: "map fst (corpus_hist gw pd n) = [1..n]"
  by (simp add: corpus_hist_def comp_def)

lemma corpus_hist_step:
  "1 \<le> k \<Longrightarrow> pd k = Some page \<Longrightarrow>
   corpus_hist gw pd k = corpus_hist gw pd (k - 1) @ [(k, gw page)]"
  by (simp add: corpus_hist_def upto_rec2 [of 1 k])

lemma build_loop_inv:
  assumes "\<forall>d. k \<le> d \<and> d \<le> n \<longrightarrow> pd d \<noteq> None" and "pd (n + 1) = None"
    and "1 \<le> k" and "k \<le> n + 1" and "index_inv hf t (corpus_hist gw pd (k - 1))"
  shows "\<exists>t'. build_loop gw hf pd k t = Some t' \<and> index_inv hf t' (corpus_hist gw pd n)"
  using assms
proof (induction "nat (n + 1 - k)" arbitrary: k t)
  case 0
  then have k: "k = n + 1" by simp
  with "0.prems" have "build_loop gw hf pd k t = Some t"
    by (subst build_loop.simps) (simp add: pageload_def)
  with "0.prems" k show ?case by simp
next
  case (Suc m)
  then have le: "k \<le> n" by simp
  with Suc.prems obtain page where page: "pd k = Some page"
    by auto
  let ?t = "foldl (index_word hf k) t (gw page)"
  have "k \<notin> fst ` set (corpus_hist gw pd (k - 1))"
    using corpus_hist_fst [of gw pd "k - 1", THEN arg_cong, of set] by auto
  with Suc.prems(5) have "index_inv hf ?t (corpus_hist gw pd (k - 1) @ [(k, gw page)])"
    by (rule index_page_inv)
  then have inv: "index_inv hf ?t (corpus_hist gw pd (k + 1 - 1))"
    using corpus_hist_step [where k = k and pd = pd and page = page and gw = gw, OF Suc.prems(3) page] by simp
  have "\<exists>t'. build_loop gw hf pd (k + 1) ?t = Some t' \<and> index_inv hf t' (corpus_hist gw pd n)"
    using Suc.hyps(2) Suc.prems(1,2,3) le inv
    by (intro Suc.hyps(1)) auto
  moreover have "build_loop gw hf pd k t = build_loop gw hf pd (k + 1) ?t"
    using page by (subst build_loop.simps) (simp add: pageload_def)
  ultimately show ?case by simp
qed







section \<open>Index persistence (indexio.c)\<close>

subsection \<open>The C library's formatted output and input\<close>

text \<open>
  \<open>printf_d\<close> is the text that \<open>%d\<close> prints.  \<open>scanf_s\<close> and \<open>scanf_d\<close> are the conversions
  \<open>%<width>s\<close> and \<open>%d\<close> of \<open>sscanf\<close>: each skips leading white space, converts the
  longest match and returns the value with the number of characters consumed (what
  \<open>%n\<close> then reports), or fails with \<open>None\<close>.  \<open>scanf_d\<close> yields the mathematical value
  of the digits; C leaves the result undefined when that value is not an \<open>int\<close>.
\<close>

definition digit_char :: "nat \<Rightarrow> char" where
  "digit_char n = char_of (48 + n)"

definition digit_val :: "char \<Rightarrow> nat" where
  "digit_val c = of_char c - 48"

fun digits :: "nat \<Rightarrow> string" where
  "digits n = (if n < 10 then [digit_char n] else digits (n div 10) @ [digit_char (n mod 10)])"

declare digits.simps [simp del]

definition printf_d :: "int \<Rightarrow> string" where
  "printf_d x = (if x < 0 then CHR ''-'' # digits (nat (- x)) else digits (nat x))"

definition digits_value :: "string \<Rightarrow> nat" where
  "digits_value ds = foldl (\<lambda>acc c. 10 * acc + digit_val c) 0 ds"

definition scanf_s :: "nat \<Rightarrow> string \<Rightarrow> (string \<times> nat) option" where
  "scanf_s width s =
     (let w = take width (takeWhile (\<lambda>c. \<not> isspace c) (dropWhile isspace s))
      in if w = [] then None else Some (w, length (takeWhile isspace s) + length w))"

text \<open>An optional sign and one or more digits at the start of the text.\<close>

definition scan_integer :: "string \<Rightarrow> (int \<times> nat) option" where
  "scan_integer r =
     (let signed = (r \<noteq> [] \<and> (hd r = CHR ''-'' \<or> hd r = CHR ''+''));
          ds = takeWhile isdigit (if signed then tl r else r)
      in if ds = [] then None
         else Some ((if signed \<and> hd r = CHR ''-'' then - int (digits_value ds)
                     else int (digits_value ds)),
                    (if signed then 1 else 0) + length ds))"

definition scanf_d :: "string \<Rightarrow> (int \<times> nat) option" where
  "scanf_d s =
     (case scan_integer (dropWhile isspace s) of
        None \<Rightarrow> None
      | Some (v, n) \<Rightarrow> Some (v, length (takeWhile isspace s) + n))"

text \<open>
  \<open>sscanf(s, " %d %d%n", ...)\<close> returns 2 exactly when both conversions succeed; the
  white space in the format is skipped by the conversions themselves.
\<close>

definition scanf_d_d :: "string \<Rightarrow> (int \<times> int \<times> nat) option" where
  "scanf_d_d s =
     (case scanf_d s of
        None \<Rightarrow> None
      | Some (a, n1) \<Rightarrow>
          (case scanf_d (drop n1 s) of
             None \<Rightarrow> None
           | Some (b, n2) \<Rightarrow> Some (a, b, n1 + n2)))"

text \<open>
  \<open>fgets(line, n, fp)\<close> on the rest of the stream: NULL at the end of the file,
  otherwise at most \<open>n - 1\<close> characters up to and including the first newline,
  and the stream after them.  \<open>c_str\<close> is the buffer read as a C string.
\<close>

definition fgets :: "nat \<Rightarrow> string \<Rightarrow> (string \<times> string) option" where
  "fgets n stream =
     (if stream = [] then None
      else
        (let k = min (n - 1) (length (takeWhile (\<lambda>c. c \<noteq> CHR 0x0A) stream) + 1)
         in Some (take k stream, drop k stream)))"

definition c_str :: "string \<Rightarrow> string" where
  "c_str buf = takeWhile (\<lambda>c. c \<noteq> CHR 0x00) buf"

subsection \<open>indexsave\<close>

text \<open>
  The helpers write to the global \<open>save_fp\<close>; the text written so far is their state.
  The file system is a map from names to contents, and \<open>writable\<close> says for which
  names \<open>fopen(.., "w")\<close> succeeds.
\<close>

definition save_doc_queue :: "doc_entry \<Rightarrow> string \<Rightarrow> string" where
  "save_doc_queue doc save_fp =
     save_fp @ '' '' @ printf_d (docID doc) @ '' '' @ printf_d (count doc)"

definition save_word_entry :: "word_entry \<Rightarrow> string \<Rightarrow> string" where
  "save_word_entry wd save_fp =
     qapply (docs wd) save_doc_queue (save_fp @ word wd) @ [CHR 0x0A]"

definition index_text :: "hashtable \<Rightarrow> string" where
  "index_text index = qapply (happly index) save_word_entry []"

type_synonym filesystem = "string \<Rightarrow> string option"

definition indexsave ::
  "(string \<Rightarrow> bool) \<Rightarrow> hashtable \<Rightarrow> string \<Rightarrow> filesystem \<Rightarrow> int \<times> filesystem" where
  "indexsave writable index indexnm fs =
     (if \<not> writable indexnm then (1, fs)
      else (0, fs(indexnm := Some (index_text index))))"

subsection \<open>indexload\<close>

lemma scan_integer_consumes: "scan_integer r = Some (v, n) \<Longrightarrow> 0 < n \<and> n \<le> length r"
proof -
  assume a: "scan_integer r = Some (v, n)"
  let ?signed = "r \<noteq> [] \<and> (hd r = CHR ''-'' \<or> hd r = CHR ''+'')"
  let ?ds = "takeWhile isdigit (if ?signed then tl r else r)"
  from a have ne: "?ds \<noteq> []" and n: "n = (if ?signed then 1 else 0) + length ?ds"
    by (auto simp: scan_integer_def Let_def split: if_splits)
  have "length ?ds \<le> length (if ?signed then tl r else r)"
    by (rule length_takeWhile_le)
  moreover have "length (if ?signed then tl r else r) + (if ?signed then 1 else 0) = length r"
    by (cases r) auto
  ultimately have "n \<le> length r"
    using n by linarith
  moreover from ne n have "0 < n"
    by simp
  ultimately show ?thesis
    by simp
qed

lemma scanf_d_consumes: "scanf_d s = Some (v, n) \<Longrightarrow> 0 < n \<and> n \<le> length s"
proof -
  assume "scanf_d s = Some (v, n)"
  then obtain m where m: "scan_integer (dropWhile isspace s) = Some (v, m)"
    and n: "n = length (takeWhile isspace s) + m"
    by (auto simp: scanf_d_def split: option.splits)
  from scan_integer_consumes [OF m] have "0 < m" "m \<le> length (dropWhile isspace s)"
    by simp_all
  moreover have "length (takeWhile isspace s) + length (dropWhile isspace s) = length s"
    by (metis length_append takeWhile_dropWhile_id)
  ultimately show ?thesis
    using n by simp
qed

lemma scanf_d_d_consumes: "scanf_d_d s = Some (a, b, n) \<Longrightarrow> 0 < n \<and> n \<le> length s"
  by (auto simp: scanf_d_d_def split: option.splits dest!: scanf_d_consumes)

text \<open>
  The inner loop of \<open>indexload\<close>: \<open>offset\<close> moves past each pair that \<open>sscanf\<close> reads,
  and the loop ends at the first call that does not return 2.
\<close>

function pairs_loop :: "string \<Rightarrow> nat \<Rightarrow> doc_entry list \<Rightarrow> doc_entry list" where
  "pairs_loop line offset docs_queue =
     (case scanf_d_d (drop offset line) of
        None \<Rightarrow> docs_queue
      | Some (doc_id, cnt, n_read) \<Rightarrow>
          pairs_loop line (offset + n_read)
            (qput docs_queue \<lparr>docID = doc_id, count = cnt\<rparr>))"
  by pat_completeness auto
termination
  by (relation "measure (\<lambda>(line, offset, docs_queue). length line - offset)")
    (auto dest!: scanf_d_d_consumes)

text \<open>
  The body of the loop over the lines: a line without a word is skipped; otherwise an
  entry with the word and the pairs read after it is put into the table.
\<close>

definition load_line :: "(string \<Rightarrow> nat) \<Rightarrow> hashtable \<Rightarrow> string \<Rightarrow> hashtable" where
  "load_line hf index line =
     (case scanf_s 255 line of
        None \<Rightarrow> index
      | Some (wd, n_read) \<Rightarrow>
          hput hf index \<lparr>word = wd, docs = pairs_loop line (0 + n_read) qopen\<rparr> wd)"

lemma fgets_shorter: "fgets n stream = Some (buf, rest) \<Longrightarrow> 1 < n \<Longrightarrow> length rest < length stream"
  by (cases stream) (auto simp: fgets_def Let_def min_def split: if_splits)

text \<open>
  The loop over the lines of the file, and \<open>indexload\<close>: NULL when the file cannot be
  opened, otherwise the table filled from a new table of 500 buckets.
\<close>

function load_loop :: "(string \<Rightarrow> nat) \<Rightarrow> string \<Rightarrow> hashtable \<Rightarrow> hashtable" where
  "load_loop hf stream index =
     (case fgets 10000 stream of
        None \<Rightarrow> index
      | Some (buf, rest) \<Rightarrow> load_loop hf rest (load_line hf index (c_str buf)))"
  by pat_completeness auto
termination
  by (relation "measure (\<lambda>(hf, stream, index). length stream)") (auto dest!: fgets_shorter)

definition load_text :: "(string \<Rightarrow> nat) \<Rightarrow> string \<Rightarrow> hashtable" where
  "load_text hf content = load_loop hf content (hopen 500)"

definition indexload :: "(string \<Rightarrow> nat) \<Rightarrow> string \<Rightarrow> filesystem \<Rightarrow> hashtable option" where
  "indexload hf indexnm fs =
     (case fs indexnm of
        None \<Rightarrow> None
      | Some content \<Rightarrow> Some (load_text hf content))"

declare pairs_loop.simps [simp del] load_loop.simps [simp del]

text \<open>An index whose only word has 256 letters, in document 1.\<close>

definition long_word_index :: hashtable where
  "long_word_index =
     hput length (hopen 500)
       \<lparr>word = replicate 256 (CHR ''a''), docs = [\<lparr>docID = 1, count = 1\<rparr>]\<rparr>
       (replicate 256 (CHR ''a''))"

subsection \<open>Lines as white-space separated tokens\<close>

text \<open>
  \<open>ws_tokens\<close> cuts a line at white space.  \<open>is_integer\<close> says that a token is an
  optional sign followed by digits and nothing else, \<open>integer_value\<close> is its value, and
  \<open>starts_integer\<close> says that \<open>%d\<close> can convert a prefix of the token.  \<open>token_pairs\<close>
  reads the tokens two by two as long as both are integers.
\<close>

lemma dropWhile_not_shorter:
  assumes "dropWhile P s \<noteq> []"
  shows "length (dropWhile (\<lambda>c. \<not> P c) (dropWhile P s)) < length s"
proof -
  from assms obtain c cs where r: "dropWhile P s = c # cs"
    by (cases "dropWhile P s") auto
  have "\<not> P c"
    using hd_dropWhile [OF assms] r by simp
  then have "dropWhile (\<lambda>c. \<not> P c) (dropWhile P s) = dropWhile (\<lambda>c. \<not> P c) cs"
    by (simp add: r)
  moreover have "length (dropWhile (\<lambda>c. \<not> P c) cs) \<le> length cs"
    by (rule length_dropWhile_le)
  moreover have "length (dropWhile P s) \<le> length s"
    by (rule length_dropWhile_le)
  ultimately show ?thesis
    by (simp add: r)
qed

function ws_tokens :: "string \<Rightarrow> string list" where
  "ws_tokens s =
     (let r = dropWhile isspace s in
      if r = [] then []
      else takeWhile (\<lambda>c. \<not> isspace c) r # ws_tokens (dropWhile (\<lambda>c. \<not> isspace c) r))"
  by pat_completeness auto
termination
  by (relation "measure length") (auto intro: dropWhile_not_shorter)

declare ws_tokens.simps [simp del]

definition is_integer :: "string \<Rightarrow> bool" where
  "is_integer t =
     (let ds = (if t \<noteq> [] \<and> (hd t = CHR ''-'' \<or> hd t = CHR ''+'') then tl t else t)
      in ds \<noteq> [] \<and> list_all isdigit ds)"

definition integer_value :: "string \<Rightarrow> int" where
  "integer_value t =
     (if t \<noteq> [] \<and> hd t = CHR ''-'' then - int (digits_value (tl t))
      else if t \<noteq> [] \<and> hd t = CHR ''+'' then int (digits_value (tl t))
      else int (digits_value t))"

definition starts_integer :: "string \<Rightarrow> bool" where
  "starts_integer t = (scan_integer t \<noteq> None)"

fun token_pairs :: "string list \<Rightarrow> doc_entry list" where
  "token_pairs [] = []"
| "token_pairs [a] = []"
| "token_pairs (a # b # rest) =
     (if is_integer a \<and> is_integer b
      then \<lparr>docID = integer_value a, count = integer_value b\<rparr> # token_pairs rest
      else [])"

lemma takeWhile_all: "\<forall>c \<in> set xs. P c \<Longrightarrow> takeWhile P (xs @ ys) = xs @ takeWhile P ys"
  by (induction xs) auto

lemma takeWhile_stop: "ys = [] \<or> \<not> P (hd ys) \<Longrightarrow> takeWhile P (xs @ ys) = takeWhile P xs"
  by (induction xs) (auto simp: takeWhile_eq_Nil_iff)

lemma space_not_digit: "isspace c \<Longrightarrow> \<not> isdigit c"
  by (auto simp: isspace_def isdigit_def)

lemma sign_not_space: "c = CHR ''-'' \<or> c = CHR ''+'' \<Longrightarrow> \<not> isspace c"
  by (auto simp: isspace_def)

text \<open>A token in its context: white space before it, and white space or the end after it.\<close>

definition token_at :: "string \<Rightarrow> string \<Rightarrow> string \<Rightarrow> bool" where
  "token_at sp t r =
     ((\<forall>c \<in> set sp. isspace c) \<and> t \<noteq> [] \<and> (\<forall>c \<in> set t. \<not> isspace c) \<and>
      (r = [] \<or> isspace (hd r)))"

lemma ws_tokens_Nil: "ws_tokens s = [] \<longleftrightarrow> (\<forall>c \<in> set s. isspace c)"
  by (subst ws_tokens.simps) (auto simp: Let_def dropWhile_eq_Nil_conv)

lemma ws_tokens_Cons:
  "ws_tokens s = t # ts \<Longrightarrow> \<exists>sp r. s = sp @ t @ r \<and> token_at sp t r \<and> ws_tokens r = ts"
proof -
  assume a: "ws_tokens s = t # ts"
  let ?r = "dropWhile isspace s"
  from a have ne: "?r \<noteq> []" and t: "t = takeWhile (\<lambda>c. \<not> isspace c) ?r"
    and ts: "ts = ws_tokens (dropWhile (\<lambda>c. \<not> isspace c) ?r)"
    by (subst (asm) ws_tokens.simps, simp add: Let_def split: if_splits)+
  let ?sp = "takeWhile isspace s"
  let ?rest = "dropWhile (\<lambda>c. \<not> isspace c) ?r"
  have s: "s = ?sp @ t @ ?rest"
    by (simp add: t)
  have "\<not> isspace (hd ?r)"
    using hd_dropWhile [OF ne] .
  with ne have tne: "t \<noteq> []"
    by (cases ?r) (auto simp: t)
  have "\<forall>c \<in> set ?sp. isspace c"
    by (auto dest: set_takeWhileD)
  moreover have "\<forall>c \<in> set t. \<not> isspace c"
    by (auto simp: t dest: set_takeWhileD)
  moreover have "?rest = [] \<or> isspace (hd ?rest)"
    using hd_dropWhile [of "\<lambda>c. \<not> isspace c" ?r] by auto
  ultimately have "token_at ?sp t ?rest"
    using tne by (simp add: token_at_def)
  with s ts show ?thesis
    by blast
qed

lemma ws_tokens_token_at:
  assumes "token_at sp t r"
  shows "ws_tokens (sp @ t @ r) = t # ws_tokens r"
proof -
  from assms have sp: "\<forall>c \<in> set sp. isspace c" and tne: "t \<noteq> []"
    and t: "\<forall>c \<in> set t. \<not> isspace c" and r: "r = [] \<or> isspace (hd r)"
    by (simp_all add: token_at_def)
  from tne t have h: "\<not> isspace (hd (t @ r))"
    by (cases t) auto
  have d: "dropWhile isspace (sp @ t @ r) = t @ r"
    using sp h tne by (simp add: dropWhile_append3 dropWhile_eq_self_iff)
  have tk: "takeWhile (\<lambda>c. \<not> isspace c) (t @ r) = t"
    using takeWhile_all [of t "\<lambda>c. \<not> isspace c" r] t r
    by (cases r) (auto simp: takeWhile_eq_Nil_iff)
  have dr: "dropWhile (\<lambda>c. \<not> isspace c) (t @ r) = r"
    using t r by (cases r) (auto simp: dropWhile_append dropWhile_eq_self_iff)
  show ?thesis
    using tne by (subst ws_tokens.simps) (simp add: d tk dr Let_def)
qed

lemma spaces_token_at:
  assumes "token_at sp t r"
  shows "takeWhile isspace (sp @ t @ r) = sp" and "dropWhile isspace (sp @ t @ r) = t @ r"
proof -
  from assms have sp: "\<forall>c \<in> set sp. isspace c" and tne: "t \<noteq> []"
    and t: "\<forall>c \<in> set t. \<not> isspace c"
    by (simp_all add: token_at_def)
  from tne t obtain c cs where tc: "t = c # cs" and c: "\<not> isspace c"
    by (cases t) auto
  have "takeWhile isspace (sp @ (t @ r)) = sp @ takeWhile isspace (t @ r)"
    using sp by (rule takeWhile_all)
  then show "takeWhile isspace (sp @ t @ r) = sp"
    using c by (simp add: tc)
  have "dropWhile isspace (sp @ (t @ r)) = dropWhile isspace (t @ r)"
    using sp by (simp add: dropWhile_append)
  then show "dropWhile isspace (sp @ t @ r) = t @ r"
    using c by (simp add: tc)
qed

lemma scan_integer_Nil: "scan_integer [] = None"
  by (simp add: scan_integer_def)

lemma scan_integer_minus:
  "scan_integer (CHR ''-'' # cs) =
     (if takeWhile isdigit cs = [] then None
      else Some (- int (digits_value (takeWhile isdigit cs)), 1 + length (takeWhile isdigit cs)))"
  by (simp add: scan_integer_def Let_def)

lemma scan_integer_plus:
  "scan_integer (CHR ''+'' # cs) =
     (if takeWhile isdigit cs = [] then None
      else Some (int (digits_value (takeWhile isdigit cs)), 1 + length (takeWhile isdigit cs)))"
  by (simp add: scan_integer_def Let_def)

lemma scan_integer_plain:
  "c \<noteq> CHR ''-'' \<Longrightarrow> c \<noteq> CHR ''+'' \<Longrightarrow>
   scan_integer (c # cs) =
     (if takeWhile isdigit (c # cs) = [] then None
      else Some (int (digits_value (takeWhile isdigit (c # cs))),
                 length (takeWhile isdigit (c # cs))))"
  by (simp add: scan_integer_def Let_def)

lemma scan_integer_append:
  assumes "t \<noteq> []" and "r = [] \<or> \<not> isdigit (hd r)"
  shows "scan_integer (t @ r) = scan_integer t"
proof -
  from assms(1) obtain c cs where tc: "t = c # cs"
    by (cases t) auto
  have d1: "takeWhile isdigit (cs @ r) = takeWhile isdigit cs"
    using takeWhile_stop [where P = isdigit and ys = r and xs = cs, OF assms(2)] .
  have d2: "takeWhile isdigit (c # cs @ r) = takeWhile isdigit (c # cs)"
    using takeWhile_stop [where P = isdigit and ys = r and xs = "c # cs", OF assms(2)] by simp
  show ?thesis
  proof (cases "c = CHR ''-'' \<or> c = CHR ''+''")
    case True
    then show ?thesis
      unfolding tc append_Cons
      by (auto simp only: scan_integer_minus scan_integer_plus d1)
  next
    case False
    then have ns: "c \<noteq> CHR ''-''" "c \<noteq> CHR ''+''"
      by simp_all
    show ?thesis
      unfolding tc append_Cons
      by (simp only: scan_integer_plain [OF ns] d2)
  qed
qed

lemma scanf_d_token_at:
  assumes "token_at sp t r"
  shows "scanf_d (sp @ t @ r) =
    (case scan_integer t of None \<Rightarrow> None | Some (v, n) \<Rightarrow> Some (v, length sp + n))"
proof -
  from assms have tne: "t \<noteq> []" and r: "r = [] \<or> isspace (hd r)"
    by (simp_all add: token_at_def)
  from r have "r = [] \<or> \<not> isdigit (hd r)"
    using space_not_digit by auto
  with tne have "scan_integer (t @ r) = scan_integer t"
    by (rule scan_integer_append)
  then show ?thesis
    by (simp add: scanf_d_def spaces_token_at [OF assms] split: option.splits)
qed

lemma scanf_d_spaces: "\<forall>c \<in> set s. isspace c \<Longrightarrow> scanf_d s = None"
proof -
  assume "\<forall>c \<in> set s. isspace c"
  then have d: "dropWhile isspace s = []"
    by simp
  show ?thesis
    unfolding scanf_d_def d by (simp add: scan_integer_Nil)
qed

lemma digits_value_snoc: "digits_value (ds @ [c]) = 10 * digits_value ds + digit_val c"
  by (simp add: digits_value_def)

lemma digit_val_char: "k < 10 \<Longrightarrow> digit_val (digit_char k) = k"
  by (simp add: digit_val_def digit_char_def)

lemma isdigit_digit_char: "k < 10 \<Longrightarrow> isdigit (digit_char k)"
  by (simp add: isdigit_def digit_char_def)

lemma digits_props:
  "digits n \<noteq> [] \<and> list_all isdigit (digits n) \<and> digits_value (digits n) = n"
proof (induction n rule: digits.induct)
  case (1 n)
  show ?case
  proof (cases "n < 10")
    case True
    then have "digits n = [digit_char n]"
      by (subst digits.simps) simp
    with True show ?thesis
      by (simp add: digits_value_def digit_val_char isdigit_digit_char)
  next
    case False
    with 1 have ih: "digits (n div 10) \<noteq> []" "list_all isdigit (digits (n div 10))"
      "digits_value (digits (n div 10)) = n div 10"
      by simp_all
    have m: "n mod 10 < 10" by simp
    have "digits n = digits (n div 10) @ [digit_char (n mod 10)]"
      using False by (subst digits.simps) simp
    then show ?thesis
      using ih m
      by (simp add: digits_value_snoc digit_val_char isdigit_digit_char del: mod_less_divisor)
  qed
qed

lemma digit_not_sign: "isdigit c \<Longrightarrow> c \<noteq> CHR ''-'' \<and> c \<noteq> CHR ''+''"
  by (auto simp: isdigit_def)

lemma digit_not_space: "isdigit c \<Longrightarrow> \<not> isspace c"
  by (auto simp: isdigit_def isspace_def)

lemma digits_integer:
  "is_integer (digits n) \<and> integer_value (digits n) = int n \<and>
   is_integer (CHR ''-'' # digits n) \<and> integer_value (CHR ''-'' # digits n) = - int n"
proof -
  obtain d ds where ds: "digits n = d # ds"
    using digits_props [of n] by (cases "digits n") auto
  have a: "list_all isdigit (d # ds)" and v: "digits_value (d # ds) = n"
    using digits_props [of n] ds by simp_all
  then have "isdigit d" by simp
  then have ns: "d \<noteq> CHR ''-''" "d \<noteq> CHR ''+''"
    using digit_not_sign by auto
  show ?thesis
    unfolding ds using a v ns
    by (simp add: is_integer_def integer_value_def)
qed

lemma printf_d_integer: "is_integer (printf_d x) \<and> integer_value (printf_d x) = x"
proof (cases "x < 0")
  case True
  then have "printf_d x = CHR ''-'' # digits (nat (- x))"
    by (simp add: printf_d_def)
  with True digits_integer [of "nat (- x)"] show ?thesis
    by simp
next
  case False
  then have "printf_d x = digits (nat x)"
    by (simp add: printf_d_def)
  with False digits_integer [of "nat x"] show ?thesis
    by simp
qed

lemma is_integer_scan:
  assumes "is_integer t"
  shows "scan_integer t = Some (integer_value t, length t)"
proof -
  let ?signed = "t \<noteq> [] \<and> (hd t = CHR ''-'' \<or> hd t = CHR ''+'')"
  let ?ds = "if ?signed then tl t else t"
  from assms have ne: "?ds \<noteq> []" and all: "list_all isdigit ?ds"
    by (simp_all add: is_integer_def Let_def)
  have tw: "takeWhile isdigit ?ds = ?ds"
    using all by (simp add: list_all_iff)
  from ne obtain c cs where tc: "t = c # cs"
    by (cases t) auto
  show ?thesis
  proof (cases ?signed)
    case True
    with tw ne have w: "takeWhile isdigit cs = cs" and n: "cs \<noteq> []"
      by (simp_all add: tc)
    from True have "c = CHR ''-'' \<or> c = CHR ''+''"
      by (simp add: tc)
    then show ?thesis
    proof
      assume "c = CHR ''-''"
      then show ?thesis
        unfolding tc by (simp only: scan_integer_minus w) (simp add: n integer_value_def)
    next
      assume "c = CHR ''+''"
      then show ?thesis
        unfolding tc by (simp only: scan_integer_plus w) (simp add: n integer_value_def)
    qed
  next
    case False
    with tw have w: "takeWhile isdigit (c # cs) = c # cs"
      by (simp add: tc)
    from False have ns: "c \<noteq> CHR ''-''" "c \<noteq> CHR ''+''"
      by (simp_all add: tc)
    show ?thesis
      unfolding tc by (simp only: scan_integer_plain [OF ns] w) (simp add: ns integer_value_def)
  qed
qed

lemma is_integer_token: "is_integer t \<Longrightarrow> t \<noteq> [] \<and> (\<forall>c \<in> set t. \<not> isspace c)"
proof -
  assume a: "is_integer t"
  let ?signed = "t \<noteq> [] \<and> (hd t = CHR ''-'' \<or> hd t = CHR ''+'')"
  let ?ds = "if ?signed then tl t else t"
  from a have ne: "?ds \<noteq> []" and all: "list_all isdigit ?ds"
    by (simp_all add: is_integer_def Let_def)
  then have tne: "t \<noteq> []" by auto
  then obtain c cs where tc: "t = c # cs" by (cases t) auto
  show ?thesis
  proof (cases ?signed)
    case True
    with all tc have "\<forall>x \<in> set cs. isdigit x" by (simp add: list_all_iff)
    with True tc show ?thesis
      using sign_not_space digit_not_space by auto
  next
    case False
    with all have "\<forall>x \<in> set t. isdigit x" by (simp add: list_all_iff)
    with tne show ?thesis
      using digit_not_space by auto
  qed
qed

lemma scanf_d_no_token: "ws_tokens r = [] \<Longrightarrow> scanf_d r = None"
  by (simp add: ws_tokens_Nil scanf_d_spaces)

lemma scanf_d_not_integer:
  assumes "ws_tokens r = t # ts" and "scan_integer t = None"
  shows "scanf_d r = None"
proof -
  from ws_tokens_Cons [OF assms(1)] obtain sp r' where "r = sp @ t @ r'" "token_at sp t r'"
    by blast
  then show ?thesis
    using assms(2) by (simp add: scanf_d_token_at)
qed

lemma scanf_d_integer:
  assumes "ws_tokens r = t # ts" and "is_integer t"
  shows "\<exists>n. scanf_d r = Some (integer_value t, n) \<and> ws_tokens (drop n r) = ts"
proof -
  from ws_tokens_Cons [OF assms(1)] obtain sp r' where r: "r = sp @ t @ r'"
    and ta: "token_at sp t r'" and ts: "ws_tokens r' = ts"
    by blast
  have "scanf_d r = Some (integer_value t, length sp + length t)"
    using ta is_integer_scan [OF assms(2)] by (simp add: r scanf_d_token_at)
  moreover have "drop (length sp + length t) r = r'"
    by (simp add: r)
  ultimately show ?thesis
    using ts by auto
qed

lemma not_starts_integer: "\<not> starts_integer t \<Longrightarrow> scan_integer t = None"
  by (cases "scan_integer t") (simp_all add: starts_integer_def)

lemma pairs_loop_tokens:
  "ws_tokens (drop offset line) = toks \<Longrightarrow>
   \<forall>t \<in> set toks. starts_integer t \<longrightarrow> is_integer t \<Longrightarrow>
   pairs_loop line offset acc = acc @ token_pairs toks"
proof (induction toks arbitrary: offset acc rule: token_pairs.induct)
  case (3 a b rest)
  show ?case
  proof (cases "is_integer a")
    case False
    with "3.prems"(2) have "\<not> starts_integer a"
      by simp
    then have "scan_integer a = None"
      by (rule not_starts_integer)
    with "3.prems"(1) have "scanf_d (drop offset line) = None"
      by (rule scanf_d_not_integer)
    with False show ?thesis
      by (subst pairs_loop.simps) (simp add: scanf_d_d_def)
  next
    case a: True
    from scanf_d_integer [OF "3.prems"(1) a] obtain n1
      where s1: "scanf_d (drop offset line) = Some (integer_value a, n1)"
        and t1: "ws_tokens (drop n1 (drop offset line)) = b # rest"
      by blast
    show ?thesis
    proof (cases "is_integer b")
      case False
      with "3.prems"(2) have "\<not> starts_integer b"
        by simp
      then have "scan_integer b = None"
        by (rule not_starts_integer)
      with t1 have "scanf_d (drop n1 (drop offset line)) = None"
        by (rule scanf_d_not_integer)
      with False s1 show ?thesis
        by (subst pairs_loop.simps) (simp add: scanf_d_d_def)
    next
      case b: True
      from scanf_d_integer [OF t1 b] obtain n2
        where s2: "scanf_d (drop n1 (drop offset line)) = Some (integer_value b, n2)"
          and t2: "ws_tokens (drop n2 (drop n1 (drop offset line))) = rest"
        by blast
      have sd: "scanf_d_d (drop offset line) = Some (integer_value a, integer_value b, n1 + n2)"
        using s1 s2 by (simp add: scanf_d_d_def)
      have t2': "ws_tokens (drop (offset + (n1 + n2)) line) = rest"
        using t2 by (simp add: add.commute add.left_commute)
      have cl: "\<forall>t \<in> set rest. starts_integer t \<longrightarrow> is_integer t"
        using "3.prems"(2) by simp
      have "pairs_loop line offset acc =
          pairs_loop line (offset + (n1 + n2))
            (acc @ [\<lparr>docID = integer_value a, count = integer_value b\<rparr>])"
        using sd by (subst pairs_loop.simps) (simp add: qput_def)
      also have "\<dots> = (acc @ [\<lparr>docID = integer_value a, count = integer_value b\<rparr>]) @ token_pairs rest"
        using a b t2' cl by (intro "3.IH") auto
      finally show ?thesis
        using a b by simp
    qed
  qed
next
  case 1
  then have "scanf_d (drop offset line) = None"
    by (simp add: scanf_d_no_token)
  then show ?case
    by (subst pairs_loop.simps) (simp add: scanf_d_d_def)
next
  case (2 a)
  show ?case
  proof (cases "is_integer a")
    case False
    with "2.prems"(2) have "\<not> starts_integer a"
      by simp
    then have "scan_integer a = None"
      by (rule not_starts_integer)
    with "2.prems"(1) have "scanf_d (drop offset line) = None"
      by (rule scanf_d_not_integer)
    then show ?thesis
      by (subst pairs_loop.simps) (simp add: scanf_d_d_def)
  next
    case True
    from scanf_d_integer [OF "2.prems"(1) True] obtain n1
      where s1: "scanf_d (drop offset line) = Some (integer_value a, n1)"
        and t1: "ws_tokens (drop n1 (drop offset line)) = []"
      by blast
    from t1 have "scanf_d (drop n1 (drop offset line)) = None"
      by (rule scanf_d_no_token)
    with s1 show ?thesis
      by (subst pairs_loop.simps) (simp add: scanf_d_d_def)
  qed
qed

lemma scanf_s_token_at:
  assumes "token_at sp t r"
  shows "scanf_s width (sp @ t @ r) =
    (if take width t = [] then None else Some (take width t, length sp + length (take width t)))"
proof -
  from assms have t: "\<forall>c \<in> set t. \<not> isspace c" and r: "r = [] \<or> isspace (hd r)"
    by (simp_all add: token_at_def)
  have "takeWhile (\<lambda>c. \<not> isspace c) (t @ r) = t"
    using takeWhile_all [of t "\<lambda>c. \<not> isspace c" r] t r
    by (cases r) (auto simp: takeWhile_eq_Nil_iff)
  then show ?thesis
    by (simp add: scanf_s_def spaces_token_at [OF assms] Let_def)
qed

lemma scanf_s_no_token: "ws_tokens s = [] \<Longrightarrow> scanf_s width s = None"
proof -
  assume "ws_tokens s = []"
  then have d: "dropWhile isspace s = []"
    by (simp add: ws_tokens_Nil)
  show ?thesis
    unfolding scanf_s_def d by simp
qed

lemma load_line_tokens:
  "(ws_tokens line = [] \<longrightarrow> load_line hf index line = index) \<and>
   (\<forall>w toks. ws_tokens line = w # toks \<longrightarrow>
      (\<exists>ds. load_line hf index line =
               hput hf index \<lparr>word = take 255 w, docs = ds\<rparr> (take 255 w) \<and>
            (length w \<le> 255 \<and> (\<forall>t \<in> set toks. starts_integer t \<longrightarrow> is_integer t) \<longrightarrow>
               ds = token_pairs toks)))"
proof (intro conjI allI impI)
  assume "ws_tokens line = []"
  then show "load_line hf index line = index"
    by (simp add: load_line_def scanf_s_no_token)
next
  fix w toks
  assume wt: "ws_tokens line = w # toks"
  from ws_tokens_Cons [OF wt] obtain sp r where l: "line = sp @ w @ r"
    and ta: "token_at sp w r" and ts: "ws_tokens r = toks"
    by blast
  from ta have "w \<noteq> []"
    by (simp add: token_at_def)
  then have tn: "take 255 w \<noteq> []"
    by (cases w) simp_all
  let ?off = "length sp + length (take 255 w)"
  have sc: "scanf_s 255 line = Some (take 255 w, ?off)"
    using tn by (simp add: l scanf_s_token_at [OF ta])
  then have ll: "load_line hf index line =
      hput hf index \<lparr>word = take 255 w, docs = pairs_loop line ?off qopen\<rparr> (take 255 w)"
    by (simp add: load_line_def)
  have "pairs_loop line ?off qopen = token_pairs toks"
    if "length w \<le> 255 \<and> (\<forall>t \<in> set toks. starts_integer t \<longrightarrow> is_integer t)"
  proof -
    from that have "drop ?off line = r"
      by (simp add: l)
    with ts have "ws_tokens (drop ?off line) = toks"
      by simp
    from pairs_loop_tokens [OF this, of qopen] that show ?thesis
      by (simp add: qopen_def)
  qed
  with ll show "\<exists>ds. load_line hf index line =
        hput hf index \<lparr>word = take 255 w, docs = ds\<rparr> (take 255 w) \<and>
      (length w \<le> 255 \<and> (\<forall>t \<in> set toks. starts_integer t \<longrightarrow> is_integer t) \<longrightarrow>
         ds = token_pairs toks)"
    by blast
qed




subsection \<open>Saving and loading again\<close>

text \<open>
  \<open>entry_line\<close> is the line that \<open>save_word_entry\<close> writes.  An entry is \<open>saveable\<close> when
  \<open>indexload\<close> can read its line back: the word is not empty, has at most 255
  characters and holds neither white space nor NUL, and the line with its newline fits
  the buffer of 10000 characters.  A table is \<open>placed\<close> when every entry is in the bucket
  of its own word, as in every table filled by \<open>hput\<close> under the entry's word.
\<close>

definition pair_text :: "doc_entry \<Rightarrow> string" where
  "pair_text d = '' '' @ printf_d (docID d) @ '' '' @ printf_d (count d)"

definition entry_line :: "word_entry \<Rightarrow> string" where
  "entry_line e = word e @ concat (map pair_text (docs e)) @ [CHR 0x0A]"

definition saveable :: "word_entry \<Rightarrow> bool" where
  "saveable e =
     (word e \<noteq> [] \<and> length (word e) \<le> 255 \<and>
      list_all (\<lambda>c. \<not> isspace c \<and> c \<noteq> CHR 0x00) (word e) \<and>
      length (entry_line e) < 10000)"

definition placed :: "(string \<Rightarrow> nat) \<Rightarrow> hashtable \<Rightarrow> bool" where
  "placed hf htp =
     (htp \<noteq> [] \<and>
      list_all (\<lambda>(i, b). list_all (\<lambda>e. hslot hf htp (word e) = i) b) (zip [0..<length htp] htp))"

lemma qapply_save_docs: "qapply ds save_doc_queue fp = fp @ concat (map pair_text ds)"
  by (induction ds arbitrary: fp) (simp_all add: qapply_def save_doc_queue_def pair_text_def)

lemma save_word_entry_line: "save_word_entry e fp = fp @ entry_line e"
  by (simp add: save_word_entry_def entry_line_def qapply_save_docs)

lemma qapply_save_entries: "qapply es save_word_entry fp = fp @ concat (map entry_line es)"
proof -
  have "foldl (\<lambda>st e. save_word_entry e st) fp es = fp @ concat (map entry_line es)"
    by (induction es arbitrary: fp) (simp_all add: save_word_entry_line)
  then show ?thesis
    by (simp add: qapply_def)
qed

lemma index_text_lines: "index_text index = concat (map entry_line (happly index))"
  by (simp add: index_text_def qapply_save_entries)

lemma printf_d_chars: "c \<in> set (printf_d x) \<Longrightarrow> isdigit c \<or> c = CHR ''-''"
  using digits_props [of "nat x"] digits_props [of "nat (- x)"]
  by (auto simp: printf_d_def list_all_iff split: if_splits)

lemma printf_d_token: "printf_d x \<noteq> [] \<and> (\<forall>c \<in> set (printf_d x). \<not> isspace c)"
  using is_integer_token [of "printf_d x"] printf_d_integer [of x] by simp

lemma isspace_blank: "isspace (CHR '' '')" and isspace_newline: "isspace (CHR 0x0A)"
  by (simp_all add: isspace_def)

definition pairs_tail :: "doc_entry list \<Rightarrow> string" where
  "pairs_tail ds = concat (map pair_text ds) @ [CHR 0x0A]"

lemma pairs_tail_space: "pairs_tail ds \<noteq> [] \<and> isspace (hd (pairs_tail ds))"
  by (cases ds) (simp_all add: pairs_tail_def pair_text_def isspace_blank isspace_newline)

lemma pairs_tail_Cons:
  "pairs_tail (d # ds) = '' '' @ printf_d (docID d) @ ('' '' @ printf_d (count d) @ pairs_tail ds)"
  by (simp add: pairs_tail_def pair_text_def)

lemma ws_tokens_pairs_tail:
  "ws_tokens (pairs_tail ds) = concat (map (\<lambda>d. [printf_d (docID d), printf_d (count d)]) ds)"
proof (induction ds)
  case Nil
  show ?case
    by (simp add: pairs_tail_def ws_tokens_Nil isspace_newline)
next
  case (Cons d ds)
  have t2: "token_at '' '' (printf_d (count d)) (pairs_tail ds)"
    using printf_d_token [of "count d"] pairs_tail_space [of ds]
    by (simp add: token_at_def isspace_blank)
  have t1: "token_at '' '' (printf_d (docID d)) ('' '' @ printf_d (count d) @ pairs_tail ds)"
    using printf_d_token [of "docID d"] by (simp add: token_at_def isspace_blank)
  show ?case
    using ws_tokens_token_at [OF t1] ws_tokens_token_at [OF t2] Cons
    by (simp only: pairs_tail_Cons) simp
qed

lemma token_pairs_printed:
  "token_pairs (concat (map (\<lambda>d. [printf_d (docID d), printf_d (count d)]) ds)) = ds"
  by (induction ds) (simp_all add: printf_d_integer)

lemma entry_line_tail: "entry_line e = word e @ pairs_tail (docs e)"
  by (simp add: entry_line_def pairs_tail_def)

lemma ws_tokens_entry_line:
  assumes "saveable e"
  shows "ws_tokens (entry_line e) =
    word e # concat (map (\<lambda>d. [printf_d (docID d), printf_d (count d)]) (docs e))"
proof -
  from assms have "token_at [] (word e) (pairs_tail (docs e))"
    using pairs_tail_space [of "docs e"]
    by (simp add: saveable_def token_at_def list_all_iff)
  from ws_tokens_token_at [OF this] show ?thesis
    by (simp add: entry_line_tail ws_tokens_pairs_tail)
qed

lemma load_line_entry_line:
  assumes "saveable e"
  shows "load_line hf index (entry_line e) = hput hf index e (word e)"
proof -
  let ?toks = "concat (map (\<lambda>d. [printf_d (docID d), printf_d (count d)]) (docs e))"
  have t: "ws_tokens (entry_line e) = word e # ?toks"
    using assms by (rule ws_tokens_entry_line)
  have cl: "\<forall>t \<in> set ?toks. starts_integer t \<longrightarrow> is_integer t"
    by (auto simp: printf_d_integer)
  from assms have len: "length (word e) \<le> 255"
    by (simp add: saveable_def)
  from load_line_tokens [of "entry_line e" hf index] t len cl
  obtain ds where l: "load_line hf index (entry_line e) =
      hput hf index \<lparr>word = take 255 (word e), docs = ds\<rparr> (take 255 (word e))"
    and ds: "ds = token_pairs ?toks"
    by blast
  from ds have d: "ds = docs e"
    by (simp only: token_pairs_printed)
  from len have tk: "take 255 (word e) = word e"
    by simp
  have r: "\<lparr>word = word e, docs = docs e\<rparr> = e"
    by (cases e) simp
  from l show ?thesis
    by (simp only: tk d r)
qed

lemma entry_line_chars:
  assumes "saveable e" and "c \<in> set (word e @ concat (map pair_text (docs e)))"
  shows "c \<noteq> CHR 0x0A \<and> c \<noteq> CHR 0x00"
proof -
  have sp: "c \<noteq> CHR 0x0A \<and> c \<noteq> CHR 0x00" if "isdigit c \<or> c = CHR ''-'' \<or> c = CHR '' ''"
    using that by (auto simp: isdigit_def)
  from assms(2) have "c \<in> set (word e) \<or> (\<exists>d \<in> set (docs e). c \<in> set (pair_text d))"
    by auto
  then show ?thesis
  proof
    assume "c \<in> set (word e)"
    with assms(1) have "\<not> isspace c \<and> c \<noteq> CHR 0x00"
      by (simp add: saveable_def list_all_iff)
    then show ?thesis
      using isspace_newline by auto
  next
    assume "\<exists>d \<in> set (docs e). c \<in> set (pair_text d)"
    then have "isdigit c \<or> c = CHR ''-'' \<or> c = CHR '' ''"
      by (auto simp: pair_text_def dest: printf_d_chars)
    then show ?thesis
      by (rule sp)
  qed
qed

lemma fgets_entry_line:
  assumes "saveable e"
  shows "fgets 10000 (entry_line e @ rest) = Some (entry_line e, rest)"
    and "c_str (entry_line e) = entry_line e"
proof -
  let ?body = "word e @ concat (map pair_text (docs e))"
  have el: "entry_line e = ?body @ [CHR 0x0A]"
    by (simp add: entry_line_def)
  have nl: "\<forall>c \<in> set ?body. c \<noteq> CHR 0x0A" and nul: "\<forall>c \<in> set ?body. c \<noteq> CHR 0x00"
    using entry_line_chars [OF assms] by blast+
  have tw: "takeWhile (\<lambda>c. c \<noteq> CHR 0x0A) (?body @ (CHR 0x0A # rest)) = ?body"
    using nl by (simp add: takeWhile_all)
  from assms have "length ?body + 1 < 10000"
    by (simp add: saveable_def el)
  then have k: "min (10000 - 1) (length ?body + 1) = length (?body @ [CHR 0x0A])"
    by simp
  have "fgets 10000 ((?body @ [CHR 0x0A]) @ rest) = Some (?body @ [CHR 0x0A], rest)"
    unfolding fgets_def using tw
    by (simp only: append_assoc append_Cons append_Nil Let_def k) simp
  then show "fgets 10000 (entry_line e @ rest) = Some (entry_line e, rest)"
    by (simp only: el)
  have "takeWhile (\<lambda>c. c \<noteq> CHR 0x00) (?body @ [CHR 0x0A]) = ?body @ [CHR 0x0A]"
    using nul by (simp add: takeWhile_eq_all_conv)
  then show "c_str (entry_line e) = entry_line e"
    by (simp only: c_str_def el)
qed

lemma load_loop_lines:
  "\<forall>e \<in> set es. saveable e \<Longrightarrow>
   load_loop hf (concat (map entry_line es)) index =
     foldl (\<lambda>t e. hput hf t e (word e)) index es"
proof (induction es arbitrary: index)
  case Nil
  show ?case
    by (subst load_loop.simps) (simp add: fgets_def)
next
  case (Cons e es)
  then have s: "saveable e" and rest: "\<forall>e \<in> set es. saveable e"
    by simp_all
  have "load_loop hf (entry_line e @ concat (map entry_line es)) index =
      load_loop hf (concat (map entry_line es)) (load_line hf index (entry_line e))"
    by (subst load_loop.simps) (simp add: fgets_entry_line [OF s])
  then show ?case
    using Cons.IH [OF rest] by (simp add: load_line_entry_line [OF s])
qed

lemma foldl_hput:
  "length t0 = n \<Longrightarrow> n > 0 \<Longrightarrow>
   foldl (\<lambda>t e. hput hf t e (word e)) t0 es =
     map (\<lambda>i. t0 ! i @ filter (\<lambda>e. hf (word e) mod n = i) es) [0..<n]"
proof (induction es arbitrary: t0)
  case Nil
  then have "map ((!) t0) [0..<n] = t0"
    using map_nth [of t0] by simp
  then show ?case
    by simp
next
  case (Cons e es)
  let ?s = "hf (word e) mod n"
  let ?t1 = "t0[?s := t0 ! ?s @ [e]]"
  have h: "hput hf t0 e (word e) = ?t1"
    using Cons.prems by (simp add: hput_def hslot_def qput_def)
  have s: "?s < n"
    using Cons.prems by simp
  have "foldl (\<lambda>t e. hput hf t e (word e)) t0 (e # es) =
      foldl (\<lambda>t e. hput hf t e (word e)) ?t1 es"
    by (simp add: h)
  also have "\<dots> = map (\<lambda>i. ?t1 ! i @ filter (\<lambda>e. hf (word e) mod n = i) es) [0..<n]"
    using Cons.prems by (intro Cons.IH) simp_all
  also have "\<dots> = map (\<lambda>i. t0 ! i @ filter (\<lambda>e. hf (word e) mod n = i) (e # es)) [0..<n]"
    using Cons.prems s by (intro map_cong) (auto simp: nth_list_update)
  finally show ?case .
qed

lemma concat_single: "i < n \<Longrightarrow> concat (map (\<lambda>j. if j = i then x else []) [0..<n]) = x"
proof (induction n)
  case 0
  then show ?case by simp
next
  case (Suc n)
  show ?case
  proof (cases "i = n")
    case True
    have "map (\<lambda>j. if j = n then x else []) [0..<n] = map (\<lambda>j. []) [0..<n]"
      by (intro map_cong) auto
    then have "concat (map (\<lambda>j. if j = n then x else []) [0..<n]) = []"
      by simp
    with True show ?thesis by simp
  next
    case False
    with Suc show ?thesis by simp
  qed
qed

lemma placed_nth:
  "placed hf t \<Longrightarrow> j < length t \<Longrightarrow> e \<in> set (t ! j) \<Longrightarrow> hf (word e) mod length t = j"
proof -
  assume p: "placed hf t" and j: "j < length t" and e: "e \<in> set (t ! j)"
  from j have "(j, t ! j) \<in> set (zip [0..<length t] t)"
    by (force simp: set_zip)
  with p e show ?thesis
    by (auto simp: placed_def list_all_iff hslot_def)
qed

lemma filter_slot_concat:
  assumes "placed hf t" and "i < length t"
  shows "filter (\<lambda>e. hf (word e) mod length t = i) (concat t) = t ! i"
proof -
  let ?P = "\<lambda>e. hf (word e) mod length t = i"
  have "map (filter ?P) t = map (\<lambda>j. filter ?P (t ! j)) [0..<length t]"
    by (rule nth_equalityI) simp_all
  also have "\<dots> = map (\<lambda>j. if j = i then t ! i else []) [0..<length t]"
  proof (intro map_cong refl)
    fix j assume "j \<in> set [0..<length t]"
    then have j: "j < length t" by simp
    show "filter ?P (t ! j) = (if j = i then t ! i else [])"
    proof (cases "j = i")
      case True
      with placed_nth [OF assms(1) j] show ?thesis
        by (simp add: filter_id_conv)
    next
      case False
      with placed_nth [OF assms(1) j] show ?thesis
        by (auto simp: filter_empty_conv)
    qed
  qed
  finally have "concat (map (filter ?P) t) = t ! i"
    using assms(2) by (simp add: concat_single)
  then show ?thesis
    by (simp add: filter_concat)
qed

lemma rebuild_table:
  assumes "placed hf t"
  shows "foldl (\<lambda>t e. hput hf t e (word e)) (hopen (length t)) (happly t) = t"
proof -
  from assms have n: "length t > 0"
    by (simp add: placed_def)
  have "foldl (\<lambda>t e. hput hf t e (word e)) (hopen (length t)) (happly t) =
      map (\<lambda>i. hopen (length t) ! i @ filter (\<lambda>e. hf (word e) mod length t = i) (happly t))
        [0..<length t]"
    using n by (intro foldl_hput) (simp_all add: hopen_def)
  also have "\<dots> = map (\<lambda>i. t ! i) [0..<length t]"
    using filter_slot_concat [OF assms]
    by (intro map_cong) (simp_all add: hopen_def qopen_def happly_def)
  finally show ?thesis
    by (simp add: map_nth)
qed

lemma table_ok_placed: "table_ok hf t \<Longrightarrow> placed hf t"
  by (auto simp: table_ok_def placed_def list_all_iff set_zip)

lemma load_saved_index:
  assumes "length index = 500" and "placed hf index" and "\<forall>e \<in> set (happly index). saveable e"
  shows "load_text hf (index_text index) = index"
proof -
  have "load_text hf (index_text index) =
      foldl (\<lambda>t e. hput hf t e (word e)) (hopen 500) (happly index)"
    using assms(3) by (simp add: load_text_def index_text_lines load_loop_lines)
  also have "\<dots> = index"
    using rebuild_table [OF assms(2)] assms(1) by simp
  finally show ?thesis .
qed

text \<open>
  C3, as amended.  For an index of 500 buckets (the size \<open>build_index\<close> and \<open>indexload\<close>
  use) in which every entry is in the bucket of its word and is saveable: saving,
  loading and saving again writes the same text; \<open>indexload\<close> returns the index that
  was saved, and the second file is equal to the first.
\<close>

theorem index_roundtrip:
  assumes "length index = 500" and "placed hf index"
    and "\<forall>e \<in> set (happly index). saveable e"
    and "writable nm" and "writable nm'"
  shows "index_text (load_text hf (index_text index)) = index_text index \<and>
         (\<exists>fs1 fs2.
            indexsave writable index nm fs = (0, fs1) \<and>
            indexload hf nm fs1 = Some index \<and>
            indexsave writable index nm' fs1 = (0, fs2) \<and>
            fs2 nm' = fs1 nm)"
proof -
  have l: "load_text hf (index_text index) = index"
    using assms(1-3) by (rule load_saved_index)
  let ?fs1 = "fs(nm := Some (index_text index))"
  have "indexsave writable index nm fs = (0, ?fs1)"
    using assms(4) by (simp add: indexsave_def)
  moreover have "indexload hf nm ?fs1 = Some index"
    by (simp add: indexload_def l)
  moreover have "indexsave writable index nm' ?fs1 = (0, ?fs1(nm' := Some (index_text index)))"
    using assms(5) by (simp add: indexsave_def)
  moreover have "(?fs1(nm' := Some (index_text index))) nm' = ?fs1 nm"
    by simp
  ultimately show ?thesis
    using l by (metis (no_types))
qed

text \<open>
  The entries of the index of \<open>indextest.c\<close> in a table of 500 buckets, and a page
  directory with document 1 only.
\<close>

definition test_index :: hashtable where
  "test_index =
     hput length
       (hput length (hopen 500)
          \<lparr>word = ''cat'', docs = [\<lparr>docID = 1, count = 2\<rparr>, \<lparr>docID = 3, count = 1\<rparr>]\<rparr> ''cat'')
       \<lparr>word = ''dog'', docs = [\<lparr>docID = 2, count = 5\<rparr>]\<rparr> ''dog''"

definition one_page :: page_directory where
  "one_page i = (if i = 1 then Some \<lparr>url = ''http://a'', depth = 0, html = None\<rparr> else None)"

lemma placed_iff:
  "placed hf t \<longleftrightarrow> t \<noteq> [] \<and> (\<forall>j < length t. \<forall>e \<in> set (t ! j). hf (word e) mod length t = j)"
proof
  assume "placed hf t"
  then show "t \<noteq> [] \<and> (\<forall>j < length t. \<forall>e \<in> set (t ! j). hf (word e) mod length t = j)"
    using placed_nth [of hf t] by (auto simp: placed_def)
next
  assume "t \<noteq> [] \<and> (\<forall>j < length t. \<forall>e \<in> set (t ! j). hf (word e) mod length t = j)"
  then show "placed hf t"
    by (auto simp: placed_def list_all_iff set_zip hslot_def)
qed

lemma length_hput: "length (hput hf t e k) = length t"
  by (simp add: hput_def)

lemma placed_hopen: "n > 0 \<Longrightarrow> placed hf (hopen n)"
  by (simp add: placed_iff hopen_def qopen_def)

lemma placed_hput: "placed hf t \<Longrightarrow> placed hf (hput hf t e (word e))"
  by (auto simp: placed_iff hput_def hslot_def qput_def nth_list_update)

theorem index_roundtrip_witness:
  "index_text test_index = ''cat 1 2 3 1'' @ [CHR 0x0A] @ ''dog 2 5'' @ [CHR 0x0A] \<and>
   index_text (load_text length (index_text test_index)) = index_text test_index \<and>
   (\<exists>fs1 fs2.
      indexsave (\<lambda>nm. True) test_index ''test.dat'' (\<lambda>nm. None) = (0, fs1) \<and>
      indexload length ''test.dat'' fs1 = Some test_index \<and>
      indexsave (\<lambda>nm. True) test_index ''test_reload.dat'' fs1 = (0, fs2) \<and>
      fs2 ''test_reload.dat'' = fs1 ''test.dat'')"
proof -
  let ?cat = "\<lparr>word = ''cat'', docs = [\<lparr>docID = 1, count = 2\<rparr>, \<lparr>docID = 3, count = 1\<rparr>]\<rparr>"
  let ?dog = "\<lparr>word = ''dog'', docs = [\<lparr>docID = 2, count = 5\<rparr>]\<rparr>"
  have t: "index_text test_index = ''cat 1 2 3 1'' @ [CHR 0x0A] @ ''dog 2 5'' @ [CHR 0x0A]"
    by code_simp
  have l: "length test_index = 500"
    by (simp add: test_index_def length_hput hopen_def)
  have p: "placed length test_index"
    using placed_hput [OF placed_hput [OF placed_hopen [of 500 length], of ?cat], of ?dog]
    by (simp add: test_index_def)
  have h: "happly test_index = [?cat, ?dog]"
    by code_simp
  have "entry_line ?cat = ''cat 1 2 3 1'' @ [CHR 0x0A]" "entry_line ?dog = ''dog 2 5'' @ [CHR 0x0A]"
    by code_simp+
  moreover have "list_all (\<lambda>c. \<not> isspace c \<and> c \<noteq> CHR 0x00) ''cat''"
    "list_all (\<lambda>c. \<not> isspace c \<and> c \<noteq> CHR 0x00) ''dog''"
    by code_simp+
  ultimately have s: "\<forall>e \<in> set (happly test_index). saveable e"
    by (simp add: h saveable_def)
  from index_roundtrip [OF l p s, of "\<lambda>nm. True" "''test.dat''" "''test_reload.dat''" "\<lambda>nm. None"] t
  show ?thesis
    by simp
qed

lemma NormalizeWord_long: "NormalizeWord (replicate 256 (CHR ''a'')) = Some (replicate 256 (CHR ''a''))"
proof -
  have "isalpha (CHR ''a'')" "tolower (CHR ''a'') = CHR ''a''"
    by code_simp+
  then show ?thesis
    by (simp add: NormalizeWord_def NormalizeWord_loop_char)
qed

lemma build_long_word_index:
  "build_index (\<lambda>page. [replicate 256 (CHR ''a'')]) length one_page = Some long_word_index"
proof -
  have "build_loop (\<lambda>page. [replicate 256 (CHR ''a'')]) length one_page 2 long_word_index =
      Some long_word_index"
    by (subst build_loop.simps) (simp add: pageload_def one_page_def)
  moreover have "index_word length 1 (hopen 500) (replicate 256 (CHR ''a'')) = long_word_index"
    by (simp add: index_word_def NormalizeWord_long hsearch_hopen long_word_index_def
        qput_def qopen_def)
  ultimately show ?thesis
    unfolding build_index_def
    by (subst build_loop.simps) (simp add: pageload_def one_page_def)
qed

text \<open>
  C3 as stated covers every file that \<open>indexsave\<close> writes.  The indexer accepts a word
  of 256 letters; \<open>indexsave\<close> writes it in full, \<open>indexload\<close> reads back its first
  255 letters and no pair, and the second save differs from the first.
\<close>

theorem long_word_not_restored:
  "build_index (\<lambda>page. [replicate 256 (CHR ''a'')]) length one_page = Some long_word_index \<and>
   index_text long_word_index = replicate 256 (CHR ''a'') @ '' 1 1'' @ [CHR 0x0A] \<and>
   index_text (load_text length (index_text long_word_index)) =
     replicate 255 (CHR ''a'') @ [CHR 0x0A]"
proof -
  have "index_text long_word_index = replicate 256 (CHR ''a'') @ '' 1 1'' @ [CHR 0x0A]"
    by code_simp
  moreover have "index_text (load_text length (index_text long_word_index)) =
      replicate 255 (CHR ''a'') @ [CHR 0x0A]"
    by code_simp
  ultimately show ?thesis
    using build_long_word_index by blast
qed

text \<open>
  The index that \<open>build_index\<close> returns has 500 buckets and is placed, so the round
  trip holds for it whenever its entries are saveable.
\<close>

lemma length_index_word: "length (index_word hf d t w) = length t"
  by (simp add: index_word_def hput_def hupdate_def split: option.splits)

lemma length_index_words: "length (foldl (index_word hf d) t ws) = length t"
  by (induction ws arbitrary: t) (simp_all add: length_index_word)

lemma build_loop_length:
  assumes "\<forall>d. k \<le> d \<and> d \<le> n \<longrightarrow> pd d \<noteq> None" and "pd (n + 1) = None" and "k \<le> n + 1"
  shows "\<exists>t'. build_loop gw hf pd k t = Some t' \<and> length t' = length t"
  using assms
proof (induction "nat (n + 1 - k)" arbitrary: k t)
  case 0
  then have "k = n + 1" by simp
  with "0.prems" have "build_loop gw hf pd k t = Some t"
    by (subst build_loop.simps) (simp add: pageload_def)
  then show ?case by simp
next
  case (Suc m)
  then have le: "k \<le> n" by simp
  with Suc.prems obtain page where page: "pd k = Some page"
    by auto
  let ?t = "foldl (index_word hf k) t (gw page)"
  have "\<exists>t'. build_loop gw hf pd (k + 1) ?t = Some t' \<and> length t' = length ?t"
    using Suc.hyps(2) Suc.prems(1,2) le by (intro Suc.hyps(1)) auto
  moreover have "build_loop gw hf pd k t = build_loop gw hf pd (k + 1) ?t"
    using page by (subst build_loop.simps) (simp add: pageload_def)
  ultimately show ?case
    by (simp add: length_index_words)
qed

lemma build_index_table:
  assumes "\<forall>d. 1 \<le> d \<and> d \<le> n \<longrightarrow> pageDir d \<noteq> None" and "pageDir (n + 1) = None" and "0 \<le> n"
  shows "\<exists>index. build_index getwords hf pageDir = Some index \<and>
           length index = 500 \<and> placed hf index"
proof -
  have "index_inv hf (hopen 500) (corpus_hist getwords pageDir (1 - 1))"
    by (simp add: index_inv_def table_ok_hopen hsearch_hopen corpus_hist_def docs_of_def)
  with build_loop_inv [where hf = hf and t = "hopen 500" and gw = getwords, OF assms(1,2)] assms(3)
  obtain index where b: "build_index getwords hf pageDir = Some index"
    and inv: "index_inv hf index (corpus_hist getwords pageDir n)"
    by (auto simp: build_index_def)
  from build_loop_length [where hf = hf and t = "hopen 500" and gw = getwords, OF assms(1,2)] assms(3) b
  have "length index = 500"
    by (auto simp: build_index_def hopen_def)
  moreover from inv have "placed hf index"
    by (simp add: index_inv_def table_ok_placed)
  ultimately show ?thesis
    using b by blast
qed

end
